theory Spec2Isabelle
  imports Main "HOL-Library.AList"
begin

section \<open>Strings\<close>

text \<open>
  The viewer works on JavaScript strings. They are modelled as lists of characters, the
  code units below 256; the case mapping and the white space test are those of
  JavaScript on that range.
\<close>

definition upperChars :: string where
  "upperChars =
     ''ABCDEFGHIJKLMNOPQRSTUVWXYZ'' @
     [CHR 0xC0, CHR 0xC1, CHR 0xC2, CHR 0xC3, CHR 0xC4, CHR 0xC5, CHR 0xC6, CHR 0xC7,
      CHR 0xC8, CHR 0xC9, CHR 0xCA, CHR 0xCB, CHR 0xCC, CHR 0xCD, CHR 0xCE, CHR 0xCF,
      CHR 0xD0, CHR 0xD1, CHR 0xD2, CHR 0xD3, CHR 0xD4, CHR 0xD5, CHR 0xD6, CHR 0xD8,
      CHR 0xD9, CHR 0xDA, CHR 0xDB, CHR 0xDC, CHR 0xDD, CHR 0xDE]"

definition lowerChars :: string where
  "lowerChars =
     ''abcdefghijklmnopqrstuvwxyz'' @
     [CHR 0xE0, CHR 0xE1, CHR 0xE2, CHR 0xE3, CHR 0xE4, CHR 0xE5, CHR 0xE6, CHR 0xE7,
      CHR 0xE8, CHR 0xE9, CHR 0xEA, CHR 0xEB, CHR 0xEC, CHR 0xED, CHR 0xEE, CHR 0xEF,
      CHR 0xF0, CHR 0xF1, CHR 0xF2, CHR 0xF3, CHR 0xF4, CHR 0xF5, CHR 0xF6, CHR 0xF8,
      CHR 0xF9, CHR 0xFA, CHR 0xFB, CHR 0xFC, CHR 0xFD, CHR 0xFE]"

definition lowerChar :: "char \<Rightarrow> char" where
  "lowerChar c =
     (case map_of (zip upperChars lowerChars) c of
        Some d \<Rightarrow> d
      | None \<Rightarrow> c)"

definition toLowerCase :: "string \<Rightarrow> string" where
  "toLowerCase s = map lowerChar s"

definition isSpace :: "char \<Rightarrow> bool" where
  "isSpace c =
     (c \<in> set [CHR '' '', CHR 0x09, CHR 0x0A, CHR 0x0B, CHR 0x0C, CHR 0x0D, CHR 0xA0])"

definition trim :: "string \<Rightarrow> string" where
  "trim s = rev (dropWhile isSpace (rev (dropWhile isSpace s)))"

fun startsWith :: "string \<Rightarrow> string \<Rightarrow> bool" where
  "startsWith s [] = True"
| "startsWith [] (q # qs) = False"
| "startsWith (c # cs) (q # qs) = (c = q \<and> startsWith cs qs)"

text \<open>\<^verbatim>\<open>s.includes(q)\<close>: \<open>q\<close> occurs in \<open>s\<close> as a contiguous substring.\<close>

fun includes_str :: "string \<Rightarrow> string \<Rightarrow> bool" where
  "includes_str [] q = (q = [])"
| "includes_str (c # cs) q = (startsWith (c # cs) q \<or> includes_str cs q)"

definition isDigit :: "char \<Rightarrow> bool" where
  "isDigit c = (c \<in> set ''0123456789'')"

text \<open>The regular expression test \<^verbatim>\<open>/^\d+$/.test(part)\<close>.\<close>

definition digitsOnly :: "string \<Rightarrow> bool" where
  "digitsOnly part = (part \<noteq> [] \<and> list_all isDigit part)"

definition digitVal :: "char \<Rightarrow> nat" where
  "digitVal c =
     (case map_of (zip ''0123456789'' [0, 1, 2, 3, 4, 5, 6, 7, 8, 9]) c of
        Some d \<Rightarrow> d
      | None \<Rightarrow> 0)"

text \<open>
  \<^verbatim>\<open>parseInt(part, 10)\<close>; the source applies it only to parts that passed the digit test,
  where it is the decimal value.
\<close>

definition parseInt :: "string \<Rightarrow> nat" where
  "parseInt part = foldl (\<lambda>a c. 10 * a + digitVal c) 0 part"

text \<open>\<^verbatim>\<open>i.toString()\<close> of a non-negative integer: decimal, no leading zero.\<close>

fun toString :: "nat \<Rightarrow> string" where
  "toString n =
     (if n < 10 then [''0123456789'' ! n]
      else toString (n div 10) @ [''0123456789'' ! (n mod 10)])"

declare toString.simps [simp del]

text \<open>\<^verbatim>\<open>path.split('.')\<close>: the empty string gives one empty part.\<close>

fun split :: "string \<Rightarrow> string list" where
  "split [] = [[]]"
| "split (c # cs) =
     (if c = CHR ''.'' then [] # split cs
      else (case split cs of
              [] \<Rightarrow> [[c]]
            | w # ws \<Rightarrow> (c # w) # ws))"

text \<open>\<^verbatim>\<open>parts.join('.')\<close>.\<close>

fun join :: "string list \<Rightarrow> string" where
  "join [] = []"
| "join [p] = p"
| "join (p # q # ps) = p @ ''.'' @ join (q # ps)"

section \<open>Documents and property access\<close>

text \<open>
  A document is what \<^verbatim>\<open>JSON.parse\<close> returns. An object keeps its entries in the order
  \<^verbatim>\<open>Object.entries\<close> lists them, one entry per key.
\<close>

datatype json =
    JNull
  | JBool bool
  | JNumber int
  | JString string
  | JArray "json list"
  | JObject "(string \<times> json) list"

text \<open>
  The values a lookup can produce: \<^verbatim>\<open>undefined\<close>, a document value, or an object of the
  runtime (a built-in function or prototype) reached through an inherited member.
\<close>

datatype jsval = Undefined | Val json | Native nat

text \<open>
  The members a value inherits from the built-in prototypes (\<^verbatim>\<open>toString\<close>,
  \<^verbatim>\<open>constructor\<close>, ...) are not part of this repository: they are a parameter, the
  function that reads the inherited member of a value for a name. The read gives
  \<open>Some Undefined\<close> when there is no such member, and \<open>None\<close> when the member is an
  accessor that throws.
\<close>

type_synonym runtime = "jsval \<Rightarrow> string \<Rightarrow> jsval option"

text \<open>A runtime without inherited members.\<close>

definition noInherited :: runtime where
  "noInherited v name = Some Undefined"

text \<open>
  A fragment of the JavaScript runtime: every value inherits \<^verbatim>\<open>constructor\<close>, a built-in
  function, and reading \<^verbatim>\<open>caller\<close> or \<^verbatim>\<open>arguments\<close> of a built-in function throws a
  TypeError.
\<close>

definition builtinRuntime :: runtime where
  "builtinRuntime v name =
     (if name = ''constructor'' then Some (Native 0)
      else (case v of
              Native n \<Rightarrow> if name = ''caller'' \<or> name = ''arguments'' then None else Some Undefined
            | _ \<Rightarrow> Some Undefined))"

text \<open>An array index as a property name: the canonical decimal form only.\<close>

definition arrayIndex :: "string \<Rightarrow> nat option" where
  "arrayIndex part =
     (if digitsOnly part \<and> toString (parseInt part) = part then Some (parseInt part)
      else None)"

text \<open>
  \<^verbatim>\<open>current[part]\<close>. \<open>None\<close> is a TypeError: the one that reading a property of
  \<^verbatim>\<open>undefined\<close> or \<^verbatim>\<open>null\<close> throws, or the one of an inherited accessor. Arrays and
  strings own their indices and \<^verbatim>\<open>length\<close>, objects own their keys; everything else is
  read from the runtime.
\<close>

fun getProp :: "runtime \<Rightarrow> jsval \<Rightarrow> string \<Rightarrow> jsval option" where
  "getProp rt Undefined part = None"
| "getProp rt (Val JNull) part = None"
| "getProp rt (Val (JArray xs)) part =
     (case arrayIndex part of
        Some i \<Rightarrow> if i < length xs then Some (Val (xs ! i)) else rt (Val (JArray xs)) part
      | None \<Rightarrow>
          if part = ''length'' then Some (Val (JNumber (int (length xs))))
          else rt (Val (JArray xs)) part)"
| "getProp rt (Val (JString s)) part =
     (case arrayIndex part of
        Some i \<Rightarrow>
          if i < length s then Some (Val (JString [s ! i])) else rt (Val (JString s)) part
      | None \<Rightarrow>
          if part = ''length'' then Some (Val (JNumber (int (length s))))
          else rt (Val (JString s)) part)"
| "getProp rt (Val (JObject kvs)) part =
     (case map_of kvs part of
        Some v \<Rightarrow> Some (Val v)
      | None \<Rightarrow> rt (Val (JObject kvs)) part)"
| "getProp rt v part = rt v part"

text \<open>The loop of \<^verbatim>\<open>getValueAtPath\<close> over the parts of the path.\<close>

fun getValueAtPath_loop :: "runtime \<Rightarrow> jsval \<Rightarrow> string list \<Rightarrow> jsval option" where
  "getValueAtPath_loop rt current [] = Some current"
| "getValueAtPath_loop rt current (part # parts) =
     (if current = Undefined \<or> current = Val JNull then Some Undefined
      else (case getProp rt current part of
              None \<Rightarrow> None
            | Some next \<Rightarrow> getValueAtPath_loop rt next parts))"

definition getValueAtPath :: "runtime \<Rightarrow> jsval \<Rightarrow> string \<Rightarrow> jsval option" where
  "getValueAtPath rt obj path =
     (if path = [] then Some obj else getValueAtPath_loop rt obj (split path))"

definition getParent :: "runtime \<Rightarrow> jsval \<Rightarrow> string \<Rightarrow> (jsval \<times> string) option" where
  "getParent rt obj path =
     (if path = [] \<or> \<not> includes_str path ''.'' then Some (Val JNull, path)
      else (let parts = split path;
                key = last parts;
                parentPath = join (butlast parts)
            in case getValueAtPath rt obj parentPath of
                 None \<Rightarrow> None
               | Some parent \<Rightarrow> Some (parent, key)))"

section \<open>The search index\<close>

datatype matchType = Key | Value

record SearchResult =
  rtype :: matchType
  rpath :: string
  rvalue :: string
  parentObj :: jsval
  childrenObj :: jsval
  priority :: int

text \<open>\<^verbatim>\<open>value && typeof value === 'object'\<close>: arrays and objects, not \<^verbatim>\<open>null\<close>.\<close>

fun isObject :: "json \<Rightarrow> bool" where
  "isObject (JArray xs) = True"
| "isObject (JObject kvs) = True"
| "isObject v = False"

fun arrayEntries :: "nat \<Rightarrow> json list \<Rightarrow> (string \<times> json) list" where
  "arrayEntries i [] = []"
| "arrayEntries i (x # xs) = (toString i, x) # arrayEntries (Suc i) xs"

text \<open>
  \<^verbatim>\<open>Object.entries(obj)\<close>, for the arrays and objects it is applied to: an array lists
  its elements under their decimal indices.
\<close>

fun objectEntries :: "json \<Rightarrow> (string \<times> json) list" where
  "objectEntries (JArray xs) = arrayEntries 0 xs"
| "objectEntries (JObject kvs) = kvs"
| "objectEntries v = []"

text \<open>\<^verbatim>\<open>path ? `${path}.${key}` : key\<close>\<close>

definition currentPathOf :: "string \<Rightarrow> string \<Rightarrow> string" where
  "currentPathOf path key = (if path \<noteq> [] then path @ ''.'' @ key else key)"

text \<open>
  What one entry pushes onto \<^verbatim>\<open>results\<close> before the recursion: the key match, then
  the value match. \<open>query\<close> is the lowercased search text.
\<close>

definition entryHits ::
  "runtime \<Rightarrow> json \<Rightarrow> string \<Rightarrow> string \<Rightarrow> string \<Rightarrow> json \<Rightarrow> SearchResult list option" where
  "entryHits rt parsedJson query currentPath key val =
     (case (if includes_str (toLowerCase key) query
            then (case getParent rt (Val parsedJson) currentPath of
                    None \<Rightarrow> None
                  | Some (parent, k) \<Rightarrow>
                      Some [\<lparr>rtype = Key, rpath = currentPath, rvalue = key,
                             parentObj = parent, childrenObj = Val val,
                             priority = (if toLowerCase key = query then 5 else 1)\<rparr>])
            else Some []) of
        None \<Rightarrow> None
      | Some keyHits \<Rightarrow>
          (case (case val of
                   JString s \<Rightarrow>
                     if includes_str (toLowerCase s) query
                     then (case getParent rt (Val parsedJson) currentPath of
                             None \<Rightarrow> None
                           | Some (parent, k) \<Rightarrow>
                               Some [\<lparr>rtype = Value, rpath = currentPath, rvalue = s,
                                      parentObj = parent, childrenObj = Val JNull,
                                      priority = (if s = query then 5 else 1)\<rparr>])
                     else Some []
                 | _ \<Rightarrow> Some []) of
             None \<Rightarrow> None
           | Some valueHits \<Rightarrow> Some (keyHits @ valueHits)))"

text \<open>
  \<^verbatim>\<open>searchInObject\<close> and the \<^verbatim>\<open>forEach\<close> over the entries. The matches are returned in
  the order the source pushes them.
\<close>

function searchInObject ::
    "runtime \<Rightarrow> json \<Rightarrow> string \<Rightarrow> json \<Rightarrow> string \<Rightarrow> SearchResult list option"
  and forEachEntry ::
    "runtime \<Rightarrow> json \<Rightarrow> string \<Rightarrow> (string \<times> json) list \<Rightarrow> string \<Rightarrow> SearchResult list option"
where
  "searchInObject rt parsedJson query obj path =
     (if \<not> isObject obj then Some []
      else forEachEntry rt parsedJson query (objectEntries obj) path)"
| "forEachEntry rt parsedJson query [] path = Some []"
| "forEachEntry rt parsedJson query ((key, val) # rest) path =
     (case entryHits rt parsedJson query (currentPathOf path key) key val of
        None \<Rightarrow> None
      | Some hits \<Rightarrow>
          (case (if isObject val
                 then searchInObject rt parsedJson query val (currentPathOf path key)
                 else Some []) of
             None \<Rightarrow> None
           | Some nested \<Rightarrow>
               (case forEachEntry rt parsedJson query rest path of
                  None \<Rightarrow> None
                | Some later \<Rightarrow> Some (hits @ nested @ later))))"
  by pat_completeness auto

definition entriesSize :: "(string \<times> json) list \<Rightarrow> nat" where
  "entriesSize es = sum_list (map (\<lambda>e. Suc (size (snd e))) es)"

lemma entriesSize_arrayEntries: "entriesSize (arrayEntries i xs) = size_list size xs"
  by (induction xs arbitrary: i) (simp_all add: entriesSize_def)

lemma entriesSize_object: "entriesSize kvs \<le> size_list (size_prod (\<lambda>k. 0) size) kvs"
  by (induction kvs) (auto simp: entriesSize_def)

lemma entriesSize_objectEntries: "isObject obj \<Longrightarrow> entriesSize (objectEntries obj) < size obj"
  using entriesSize_object by (cases obj) (simp_all add: entriesSize_arrayEntries less_Suc_eq_le)

termination searchInObject
proof (relation "measure (\<lambda>x. case x of
          Inl (rt, parsedJson, query, obj, path) \<Rightarrow> size obj
        | Inr (rt, parsedJson, query, es, path) \<Rightarrow> entriesSize es)")
qed (simp_all add: entriesSize_objectEntries, simp_all add: entriesSize_def)

declare searchInObject.simps [simp del]

text \<open>
  The entries that the traversal of \<^verbatim>\<open>searchInObject\<close> (and of \<^verbatim>\<open>renderJSON\<close>, which
  computes \<^verbatim>\<open>currentPath\<close> the same way) reaches. \<open>pathOf obj path loc p v\<close>: started on
  \<open>obj\<close> with \<open>path\<close>, the traversal reaches the entry under the sequence of keys
  \<open>loc\<close>, its \<^verbatim>\<open>currentPath\<close> there is \<open>p\<close> and the value of the entry is \<open>v\<close>.
\<close>

inductive pathOf :: "json \<Rightarrow> string \<Rightarrow> string list \<Rightarrow> string \<Rightarrow> json \<Rightarrow> bool" where
  pathOf_entry:
    "isObject obj \<Longrightarrow> (key, val) \<in> set (objectEntries obj) \<Longrightarrow>
     pathOf obj path [key] (currentPathOf path key) val"
| pathOf_nested:
    "isObject obj \<Longrightarrow> (key, val) \<in> set (objectEntries obj) \<Longrightarrow> isObject val \<Longrightarrow>
     pathOf val (currentPathOf path key) loc p v \<Longrightarrow>
     pathOf obj path (key # loc) p v"

text \<open>
  The same traversal as a list: every entry it reaches, with its sequence of keys, its
  \<^verbatim>\<open>currentPath\<close> and its value, in the order of the visit.
\<close>

function entryPaths :: "json \<Rightarrow> string \<Rightarrow> (string list \<times> string \<times> json) list"
  and entryPathsOf :: "(string \<times> json) list \<Rightarrow> string \<Rightarrow> (string list \<times> string \<times> json) list"
where
  "entryPaths obj path =
     (if \<not> isObject obj then [] else entryPathsOf (objectEntries obj) path)"
| "entryPathsOf [] path = []"
| "entryPathsOf ((key, val) # rest) path =
     ([key], currentPathOf path key, val) #
     map (\<lambda>e. (key # fst e, snd e))
       (if isObject val then entryPaths val (currentPathOf path key) else []) @
     entryPathsOf rest path"
  by pat_completeness auto
termination entryPaths
proof (relation "measure (\<lambda>x. case x of
          Inl (obj, path) \<Rightarrow> size obj
        | Inr (es, path) \<Rightarrow> entriesSize es)")
qed (simp_all add: entriesSize_objectEntries, simp_all add: entriesSize_def)

declare entryPaths.simps [simp del]

section \<open>Records of booleans\<close>

text \<open>
  A \<^verbatim>\<open>Record<string, boolean>\<close> is a list of entries with one entry per key:
  \<open>AList.update\<close> is the assignment \<^verbatim>\<open>m[k] = v\<close>, \<open>map_of m k\<close> the read
  \<^verbatim>\<open>m[k]\<close> of an own key. The entries stand in the order of their first assignment.
\<close>

type_synonym boolRecord = "(string \<times> bool) list"

text \<open>
  \<^verbatim>\<open>Object.keys(m)\<close>: the keys that are array indices first, in ascending order, then
  the other keys in the order of their first assignment.
\<close>

definition isIndexKey :: "string \<Rightarrow> bool" where
  "isIndexKey k = (case arrayIndex k of Some n \<Rightarrow> n < 4294967295 | None \<Rightarrow> False)"

definition objectKeys :: "boolRecord \<Rightarrow> string list" where
  "objectKeys m =
     map toString (sort (map parseInt (filter isIndexKey (map fst m)))) @
     filter (\<lambda>k. \<not> isIndexKey k) (map fst m)"

text \<open>\<^verbatim>\<open>{...prev, ...updates}\<close>\<close>

definition spread :: "boolRecord \<Rightarrow> boolRecord \<Rightarrow> boolRecord" where
  "spread prev updates = fold (\<lambda>e m. AList.update (fst e) (snd e) m) updates prev"

section \<open>Paths and similar structures\<close>

definition getNormalizedPattern :: "string \<Rightarrow> string" where
  "getNormalizedPattern path =
     (if path = [] then []
      else join (map (\<lambda>part. if digitsOnly part then ''*'' else part) (split path)))"

text \<open>The positions of the parts that pass the digit test, in increasing order.\<close>

definition indexPositionsOf :: "string list \<Rightarrow> nat list" where
  "indexPositionsOf parts = filter (\<lambda>i. digitsOnly (parts ! i)) [0..<length parts]"

definition findSiblingArrayItems :: "boolRecord \<Rightarrow> string \<Rightarrow> string list" where
  "findSiblingArrayItems expanded path =
     (if path = [] then []
      else (let parts = split path;
                indexPositions = indexPositionsOf parts
            in if length indexPositions = 0 then []
               else (let currentPattern = getNormalizedPattern path
                     in filter
                          (\<lambda>p. p \<noteq> path \<and> getNormalizedPattern p = currentPattern \<and>
                               length (split p) = length parts \<and>
                               list_all (\<lambda>i. i \<in> set indexPositions \<or> parts ! i = split p ! i)
                                 [0..<length parts])
                          (objectKeys expanded))))"

definition findSimilarStructurePaths :: "boolRecord \<Rightarrow> string \<Rightarrow> string list" where
  "findSimilarStructurePaths expanded path =
     (if path = [] then [] else findSiblingArrayItems expanded path)"

definition getPathUpToIndex :: "string \<Rightarrow> nat \<Rightarrow> string" where
  "getPathUpToIndex path indexPosition = join (take indexPosition (split path))"

definition getPathWithReplacedIndex :: "string \<Rightarrow> nat \<Rightarrow> nat \<Rightarrow> string" where
  "getPathWithReplacedIndex path indexPosition newIndex =
     (let parts = split path;
          prefix = join (take indexPosition parts);
          suffix = join (drop (indexPosition + 1) parts);
          newIndexStr = toString newIndex
      in if prefix \<noteq> []
         then (if suffix \<noteq> [] then prefix @ ''.'' @ newIndexStr @ ''.'' @ suffix
               else prefix @ ''.'' @ newIndexStr)
         else (if suffix \<noteq> [] then newIndexStr @ ''.'' @ suffix else newIndexStr))"

text \<open>
  \<^verbatim>\<open>findSiblingsInArray\<close> looks for the first part that passes the digit test, resolves
  the path before it and replaces that part by every other index of the array found
  there. Only an array of the document has elements to list: the one array among the
  runtime's objects, \<^verbatim>\<open>Array.prototype\<close>, is empty, and gives no sibling either.
\<close>

definition findSiblingsInArray :: "runtime \<Rightarrow> json \<Rightarrow> string \<Rightarrow> string list option" where
  "findSiblingsInArray rt parsedJson path =
     (let parts = split path
      in case find (\<lambda>i. digitsOnly (parts ! i)) [0..<length parts] of
           None \<Rightarrow> Some []
         | Some indexPosition \<Rightarrow>
             (case getValueAtPath rt (Val parsedJson) (getPathUpToIndex path indexPosition) of
                None \<Rightarrow> None
              | Some (Val (JArray arrayAtPath)) \<Rightarrow>
                  Some (map (getPathWithReplacedIndex path indexPosition)
                          (filter (\<lambda>i. i \<noteq> parseInt (parts ! indexPosition))
                             [0..<length arrayAtPath]))
              | Some other \<Rightarrow> Some []))"

text \<open>The loop of \<^verbatim>\<open>ensureParentPathsExpanded\<close> and \<^verbatim>\<open>expandParentPaths\<close>.\<close>

fun expandPathsLoop :: "string \<Rightarrow> string list \<Rightarrow> boolRecord \<Rightarrow> boolRecord" where
  "expandPathsLoop currentPath [] updates = updates"
| "expandPathsLoop currentPath (part # parts) updates =
     (let currentPath' = currentPath @ (if currentPath \<noteq> [] then ''.'' else []) @ part
      in expandPathsLoop currentPath' parts (AList.update currentPath' True updates))"

definition ensureParentPathsExpanded :: "string \<Rightarrow> boolRecord \<Rightarrow> boolRecord" where
  "ensureParentPathsExpanded path updates = expandPathsLoop [] (butlast (split path)) updates"

text \<open>The \<^verbatim>\<open>forEach\<close> of \<^verbatim>\<open>findNestedSiblings\<close> over the index positions.\<close>

fun findNestedSiblings_loop ::
  "runtime \<Rightarrow> json \<Rightarrow> string list \<Rightarrow> nat list \<Rightarrow> string list \<Rightarrow> string list option" where
  "findNestedSiblings_loop rt parsedJson parts [] allSiblings = Some allSiblings"
| "findNestedSiblings_loop rt parsedJson parts (pos # rest) allSiblings =
     (case findSiblingsInArray rt parsedJson (join (take (pos + 1) parts)) of
        None \<Rightarrow> None
      | Some siblings \<Rightarrow>
          findNestedSiblings_loop rt parsedJson parts rest
            (if pos < length parts - 1
             then allSiblings @
                    map (\<lambda>sibling. sibling @ ''.'' @ join (drop (pos + 1) parts)) siblings
             else allSiblings @ siblings))"

text \<open>\<^verbatim>\<open>Array.from(new Set(xs))\<close>: the first occurrence of every element, in order.\<close>

definition uniqueInOrder :: "string list \<Rightarrow> string list" where
  "uniqueInOrder xs = rev (remdups (rev xs))"

definition findNestedSiblings :: "runtime \<Rightarrow> json \<Rightarrow> string \<Rightarrow> string list option" where
  "findNestedSiblings rt parsedJson path =
     (let parts = split path;
          indexPositions = indexPositionsOf parts
      in if length indexPositions = 0 then Some []
         else (case findNestedSiblings_loop rt parsedJson parts indexPositions [] of
                 None \<Rightarrow> None
               | Some allSiblings \<Rightarrow> Some (uniqueInOrder allSiblings)))"

section \<open>The state and its effects\<close>

record AppState =
  jsonInput :: string
  parsedJson :: json
  error :: string
  expandedSections :: boolRecord
  searchQuery :: string
  searchResults :: "SearchResult list"
  currentSearchIndex :: int
  darkMode :: bool

text \<open>The initial values of the \<^verbatim>\<open>useState\<close> hooks.\<close>

definition initialState :: AppState where
  "initialState =
     \<lparr>jsonInput = [], parsedJson = JNull, error = [], expandedSections = [],
      searchQuery = [], searchResults = [], currentSearchIndex = 0, darkMode = False\<rparr>"

text \<open>JavaScript truthiness of a document value, as in \<^verbatim>\<open>!parsedJson\<close>.\<close>

fun truthy :: "json \<Rightarrow> bool" where
  "truthy JNull = False"
| "truthy (JBool b) = b"
| "truthy (JNumber n) = (n \<noteq> 0)"
| "truthy (JString s) = (s \<noteq> [])"
| "truthy (JArray xs) = True"
| "truthy (JObject kvs) = True"

text \<open>
  The effect on \<^verbatim>\<open>[jsonInput]\<close>. \<^verbatim>\<open>JSON.parse\<close> is the runtime's: it is the
  parameter \<open>parse\<close>, which returns the document or the message of the error it throws.
\<close>

definition processJsonEffect :: "(string \<Rightarrow> string + json) \<Rightarrow> AppState \<Rightarrow> AppState" where
  "processJsonEffect parse st =
     (if trim (jsonInput st) = [] then st\<lparr>parsedJson := JNull, error := []\<rparr>
      else (case parse (jsonInput st) of
              Inr parsed \<Rightarrow> st\<lparr>parsedJson := parsed, error := []\<rparr>
            | Inl message \<Rightarrow> st\<lparr>parsedJson := JNull, error := ''Invalid JSON: '' @ message\<rparr>))"

text \<open>
  The effect on \<^verbatim>\<open>[searchQuery, parsedJson]\<close>. The sort is the stable sort by descending
  priority. \<open>None\<close> is an exception that escapes the effect.
\<close>

definition searchEffect :: "runtime \<Rightarrow> AppState \<Rightarrow> AppState option" where
  "searchEffect rt st =
     (if trim (searchQuery st) = [] \<or> \<not> truthy (parsedJson st)
      then Some (st\<lparr>searchResults := []\<rparr>)
      else (case searchInObject rt (parsedJson st) (toLowerCase (searchQuery st))
                   (parsedJson st) [] of
              None \<Rightarrow> None
            | Some results \<Rightarrow>
                (let sorted = sort_key (\<lambda>r. - priority r) results
                 in Some (st\<lparr>searchResults := sorted,
                             currentSearchIndex := (if length sorted > 0 then 0 else - 1)\<rparr>))))"

text \<open>Truthiness of any value; the objects of the runtime are truthy.\<close>

fun truthyVal :: "jsval \<Rightarrow> bool" where
  "truthyVal Undefined = False"
| "truthyVal (Val v) = truthy v"
| "truthyVal (Native n) = True"

text \<open>
  \<^verbatim>\<open>toggleSection\<close>. The read \<^verbatim>\<open>prev[path]\<close> of a path that is not a key of the record
  gives what a plain object inherits under that name.
\<close>

definition toggleSection :: "runtime \<Rightarrow> string \<Rightarrow> AppState \<Rightarrow> AppState option" where
  "toggleSection rt path st =
     (case (case map_of (expandedSections st) path of
              Some b \<Rightarrow> Some (\<not> b)
            | None \<Rightarrow> map_option (\<lambda>v. \<not> truthyVal v) (rt (Val (JObject [])) path)) of
        None \<Rightarrow> None
      | Some flipped \<Rightarrow>
          Some (st\<lparr>expandedSections := spread (expandedSections st) [(path, flipped)]\<rparr>))"

text \<open>
  The \<^verbatim>\<open>updates\<close> object that \<^verbatim>\<open>toggleSimilarStructures\<close> builds; the source has the
  same statements in both of its branches.
\<close>

definition similarUpdates :: "string \<Rightarrow> bool \<Rightarrow> string list \<Rightarrow> boolRecord" where
  "similarUpdates path expand paths =
     fold (\<lambda>p updates.
             if expand then ensureParentPathsExpanded p (AList.update p expand updates)
             else AList.update p expand updates)
       paths
       (if expand then ensureParentPathsExpanded path (AList.update path expand []) else [])"

definition toggleSimilarStructures ::
  "runtime \<Rightarrow> string \<Rightarrow> bool \<Rightarrow> AppState \<Rightarrow> AppState option" where
  "toggleSimilarStructures rt path expand st =
     (case findNestedSiblings rt (parsedJson st) path of
        None \<Rightarrow> None
      | Some nestedSiblings \<Rightarrow>
          if length nestedSiblings = 0
          then (let similarPaths = findSimilarStructurePaths (expandedSections st) path
                in if length similarPaths = 0 then Some st
                   else Some (st\<lparr>expandedSections :=
                                   spread (expandedSections st)
                                     (similarUpdates path expand similarPaths)\<rparr>))
          else Some (st\<lparr>expandedSections :=
                          spread (expandedSections st)
                            (similarUpdates path expand nestedSiblings)\<rparr>))"

section \<open>Navigation through the search results\<close>

definition expandParentPaths :: "string \<Rightarrow> AppState \<Rightarrow> AppState" where
  "expandParentPaths path st =
     (if path = [] then st
      else st\<lparr>expandedSections :=
                spread (expandedSections st) (expandPathsLoop [] (split path) [])\<rparr>)"

text \<open>
  The effect on \<^verbatim>\<open>[currentSearchIndex, searchResults]\<close>, without the scrolling. Reading
  \<^verbatim>\<open>result.path\<close> throws when the index is past the end of the list.
\<close>

definition navigationEffect :: "AppState \<Rightarrow> AppState option" where
  "navigationEffect st =
     (if currentSearchIndex st \<ge> 0 \<and> length (searchResults st) > 0
      then (if nat (currentSearchIndex st) < length (searchResults st)
            then Some (expandParentPaths
                         (rpath (searchResults st ! nat (currentSearchIndex st))) st)
            else None)
      else Some st)"

text \<open>The remainder operator \<^verbatim>\<open>%\<close> on integers: the sign is the dividend's.\<close>

definition jsRemainder :: "int \<Rightarrow> int \<Rightarrow> int" where
  "jsRemainder a b = sgn a * (\<bar>a\<bar> mod \<bar>b\<bar>)"

definition navigateToNextResult :: "AppState \<Rightarrow> AppState" where
  "navigateToNextResult st =
     (if length (searchResults st) = 0 then st
      else st\<lparr>currentSearchIndex :=
                jsRemainder (currentSearchIndex st + 1) (int (length (searchResults st)))\<rparr>)"

definition navigateToPrevResult :: "AppState \<Rightarrow> AppState" where
  "navigateToPrevResult st =
     (if length (searchResults st) = 0 then st
      else st\<lparr>currentSearchIndex :=
                (if currentSearchIndex st \<le> 0 then int (length (searchResults st)) - 1
                 else currentSearchIndex st - 1)\<rparr>)"

section \<open>Events\<close>

datatype event =
    SetJsonInput string
  | SetSearchQuery string
  | ToggleSection string
  | ToggleSimilarStructures string bool
  | NavigateToNextResult
  | NavigateToPrevResult
  | ToggleDarkMode

text \<open>
  An effect runs when one of its dependencies changed. A parsed array or object is a
  new reference every time, other values are compared by value.
\<close>

definition parsedJsonChanged :: "json \<Rightarrow> json \<Rightarrow> bool" where
  "parsedJsonChanged old new = (isObject new \<or> old \<noteq> new)"

definition thenNavigate :: "AppState option \<Rightarrow> AppState option" where
  "thenNavigate r = (case r of None \<Rightarrow> None | Some st \<Rightarrow> navigationEffect st)"

text \<open>One event and the effects it triggers, until the state is settled.\<close>

fun step :: "(string \<Rightarrow> string + json) \<Rightarrow> runtime \<Rightarrow> event \<Rightarrow> AppState \<Rightarrow> AppState option" where
  "step parse rt (SetJsonInput text) st =
     (if text = jsonInput st then Some st
      else (let st1 = processJsonEffect parse (st\<lparr>jsonInput := text\<rparr>)
            in if parsedJsonChanged (parsedJson st) (parsedJson st1)
               then thenNavigate (searchEffect rt st1)
               else Some st1))"
| "step parse rt (SetSearchQuery q) st =
     (if q = searchQuery st then Some st
      else thenNavigate (searchEffect rt (st\<lparr>searchQuery := q\<rparr>)))"
| "step parse rt (ToggleSection path) st = toggleSection rt path st"
| "step parse rt (ToggleSimilarStructures path expand) st =
     toggleSimilarStructures rt path expand st"
| "step parse rt NavigateToNextResult st =
     (let st1 = navigateToNextResult st
      in if currentSearchIndex st1 = currentSearchIndex st then Some st1
         else navigationEffect st1)"
| "step parse rt NavigateToPrevResult st =
     (let st1 = navigateToPrevResult st
      in if currentSearchIndex st1 = currentSearchIndex st then Some st1
         else navigationEffect st1)"
| "step parse rt ToggleDarkMode st = Some (st\<lparr>darkMode := \<not> darkMode st\<rparr>)"

fun run :: "(string \<Rightarrow> string + json) \<Rightarrow> runtime \<Rightarrow> event list \<Rightarrow> AppState \<Rightarrow> AppState option" where
  "run parse rt [] st = Some st"
| "run parse rt (ev # evs) st =
     (case step parse rt ev st of
        None \<Rightarrow> None
      | Some st' \<Rightarrow> run parse rt evs st')"

text \<open>The states the application can be in.\<close>

inductive reachable :: "(string \<Rightarrow> string + json) \<Rightarrow> runtime \<Rightarrow> AppState \<Rightarrow> bool"
  for parse :: "string \<Rightarrow> string + json" and rt :: runtime where
  reachable_initial: "reachable parse rt initialState"
| reachable_step: "reachable parse rt st \<Longrightarrow> step parse rt ev st = Some st' \<Longrightarrow> reachable parse rt st'"

section \<open>Example documents and states\<close>

definition exampleHit :: "string \<Rightarrow> SearchResult" where
  "exampleHit p =
     \<lparr>rtype = Key, rpath = p, rvalue = p, parentObj = Val JNull, childrenObj = Val JNull,
      priority = 1\<rparr>"

text \<open>Three matches, the cursor on the last one.\<close>

definition threeHits :: AppState where
  "threeHits =
     initialState\<lparr>searchResults := [exampleHit ''a'', exampleHit ''b'', exampleHit ''c''],
                  currentSearchIndex := 2\<rparr>"



definition nestedArrayDoc :: json where
  "nestedArrayDoc = JArray [JArray [JNumber 5], JArray [JNumber 6]]"

definition spaceKeyDoc :: json where
  "spaceKeyDoc = JObject [('' a'', JNumber 1)]"

definition bobDoc :: json where
  "bobDoc = JObject [(''name'', JString ''Bob''), (''nested'', JObject [(''name'', JString ''bob'')])]"

text \<open>
  The fields of the matches that the specification names: kind, path, matched text and
  priority, in the order of the list.
\<close>

definition matchesOf :: "AppState option \<Rightarrow> (matchType \<times> string \<times> string \<times> int) list option" where
  "matchesOf r = map_option (\<lambda>st. map (\<lambda>m. (rtype m, rpath m, rvalue m, priority m)) (searchResults st)) r"

definition bobValueDoc :: json where
  "bobValueDoc = JObject [(''a'', JString ''bob'')]"

text \<open>A parser that knows one document; every other text is malformed.\<close>

definition exampleParse :: "string \<Rightarrow> string + json" where
  "exampleParse text =
     (if text = ''[[5],[6]]'' then Inr nestedArrayDoc else Inl ''Unexpected token'')"

definition twoLevelDoc :: json where
  "twoLevelDoc =
     JObject
       [(''a'', JArray
           [JObject [(''b'', JArray [JObject [(''c'', JNumber 1)], JObject [(''c'', JNumber 2)]])],
            JObject [(''b'', JArray [JObject [(''c'', JNumber 3)], JObject [(''c'', JNumber 4)]])]])]"

text \<open>The cursor of a state and the number of its matches.\<close>

definition cursorOf :: "AppState option \<Rightarrow> (int \<times> nat) option" where
  "cursorOf r = map_option (\<lambda>st. (currentSearchIndex st, length (searchResults st))) r"

text \<open>The match list is empty whenever the search effect would return early.\<close>

definition resultsConsistent :: "AppState \<Rightarrow> bool" where
  "resultsConsistent st =
     (if trim (searchQuery st) = [] \<or> \<not> truthy (parsedJson st) then searchResults st = []
      else True)"

text \<open>The state after the document is loaded and its first element is expanded.\<close>

definition toggledState :: AppState where
  "toggledState =
     \<lparr>jsonInput = ''[[5],[6]]'', parsedJson = nestedArrayDoc, error = [],
      expandedSections = [(''0'', True)], searchQuery = [], searchResults = [],
      currentSearchIndex = 0, darkMode = False\<rparr>"

text \<open>No key of the document, at any depth, contains a dot.\<close>

fun dotFreeKeys :: "json \<Rightarrow> bool" where
  "dotFreeKeys (JArray xs) = (\<forall>x\<in>set xs. dotFreeKeys x)"
| "dotFreeKeys (JObject kvs) = (\<forall>e\<in>set kvs. CHR ''.'' \<notin> set (fst e) \<and> dotFreeKeys (snd e))"
| "dotFreeKeys v = True"

definition dottedDoc :: json where
  "dottedDoc = JObject [(''a.b'', JNumber 1), (''a'', JObject [(''b'', JNumber 2)])]"

definition emptyKeyDoc :: json where
  "emptyKeyDoc = JObject [([], JObject [(''a'', JNumber 1)]), (''a'', JNumber 2)]"

definition plainDoc :: json where
  "plainDoc = JObject [(''a'', JObject [(''b'', JNumber 2)]), (''b'', JNumber 1)]"



text \<open>No object of the document has two entries under one key.\<close>

fun distinctKeys :: "json \<Rightarrow> bool" where
  "distinctKeys (JArray xs) = (\<forall>x\<in>set xs. distinctKeys x)"
| "distinctKeys (JObject kvs) =
     (distinct (map fst kvs) \<and> (\<forall>e\<in>set kvs. distinctKeys (snd e)))"
| "distinctKeys v = True"

text \<open>
  The documents that \<^verbatim>\<open>JSON.parse\<close> returns for texts whose keys contain no dot and are
  not empty at the top level.
\<close>

definition plainKeys :: "json \<Rightarrow> bool" where
  "plainKeys doc =
     (dotFreeKeys doc \<and> distinctKeys doc \<and> list_all (\<lambda>e. fst e \<noteq> []) (objectEntries doc))"

definition accessorDoc :: json where
  "accessorDoc = JObject [(''a'', JNumber 5), (''a.constructor.caller.x'', JNumber 1)]"

definition callerDoc :: json where
  "callerDoc = JObject [(''constructor.caller'', JArray [JArray [JNumber 1], JArray [JNumber 2]])]"

section \<open>Properties\<close>

subsection \<open>Strings\<close>

lemmas string_eval =
  toLowerCase_def lowerChar_def upperChars_def lowerChars_def isSpace_def trim_def isDigit_def
  digitsOnly_def digitVal_def parseInt_def toString.simps arrayIndex_def

lemma lower_not_upper: "list_all (\<lambda>d. d \<notin> set upperChars) lowerChars"
  by code_simp

lemma lowerChar_idem: "lowerChar (lowerChar c) = lowerChar c"
proof (cases "map_of (zip upperChars lowerChars) c")
  case None
  then show ?thesis by (simp add: lowerChar_def)
next
  case (Some d)
  then have "d \<in> set lowerChars"
    by (meson map_of_SomeD set_zip_rightD)
  then have "d \<notin> set upperChars"
    using lower_not_upper by (simp add: list_all_iff)
  then have "d \<notin> fst ` set (zip upperChars lowerChars)"
    by (metis fst_conv imageE set_zip_leftD surjective_pairing)
  then have "map_of (zip upperChars lowerChars) d = None"
    by (simp add: map_of_eq_None_iff)
  with Some show ?thesis by (simp add: lowerChar_def)
qed

lemma lowerChar_digit: "isDigit c \<Longrightarrow> lowerChar c = c"
proof -
  assume "isDigit c"
  then have "c \<in> set ''0123456789''" by (simp only: isDigit_def)
  moreover have "list_all (\<lambda>d. d \<notin> set upperChars) ''0123456789''"
    by code_simp
  ultimately have "c \<notin> set upperChars" by (simp only: list_all_iff) blast
  then have "c \<notin> fst ` set (zip upperChars lowerChars)"
    by (metis fst_conv imageE set_zip_leftD surjective_pairing)
  then have "map_of (zip upperChars lowerChars) c = None"
    by (simp add: map_of_eq_None_iff)
  then show ?thesis by (simp add: lowerChar_def)
qed

lemma toLowerCase_idem: "toLowerCase (toLowerCase s) = toLowerCase s"
  by (simp add: toLowerCase_def lowerChar_idem)

lemma toString_digits: "list_all isDigit (toString n)"
proof (induction n rule: toString.induct)
  case (1 n)
  have d: "isDigit (''0123456789'' ! k)" if "k < 10" for k
  proof -
    from that have "k \<in> {0, 1, 2, 3, 4, 5, 6, 7, 8, 9}" by auto
    then show ?thesis by (auto simp: isDigit_def)
  qed
  show ?case
  proof (cases "n < 10")
    case True
    then show ?thesis by (subst toString.simps) (simp add: d)
  next
    case False
    then show ?thesis using 1 by (subst toString.simps) (simp add: d)
  qed
qed

lemma toString_nonempty: "toString n \<noteq> []"
  by (subst toString.simps) simp

lemma toLowerCase_toString: "toLowerCase (toString n) = toString n"
  using toString_digits [of n]
  by (simp add: toLowerCase_def list_all_iff map_idI lowerChar_digit)

lemma isDigit_not_dot: "isDigit c \<Longrightarrow> c \<noteq> CHR ''.''"
  by (auto simp: isDigit_def)

lemma toString_no_dot: "CHR ''.'' \<notin> set (toString n)"
  using toString_digits [of n] isDigit_not_dot unfolding list_all_iff by blast

lemma digitVal_digit: "k < 10 \<Longrightarrow> digitVal (''0123456789'' ! k) = k"
proof -
  assume "k < 10"
  then have "k = 0 \<or> k = 1 \<or> k = 2 \<or> k = 3 \<or> k = 4 \<or> k = 5 \<or> k = 6 \<or> k = 7 \<or> k = 8 \<or> k = 9"
    by arith
  then show ?thesis
    by (elim disjE) (simp_all add: digitVal_def)
qed

lemma parseInt_snoc: "parseInt (s @ [c]) = 10 * parseInt s + digitVal c"
  by (simp add: parseInt_def)

lemma parseInt_toString: "parseInt (toString n) = n"
proof (induction n rule: toString.induct)
  case (1 n)
  show ?case
  proof (cases "n < 10")
    case True
    then have "toString n = [] @ [''0123456789'' ! n]"
      by (subst toString.simps) simp
    then have "parseInt (toString n) = 10 * parseInt [] + digitVal (''0123456789'' ! n)"
      by (simp only: parseInt_snoc)
    also have "\<dots> = n"
      using digitVal_digit [OF True] by (simp add: parseInt_def)
    finally show ?thesis .
  next
    case False
    then have "toString n = toString (n div 10) @ [''0123456789'' ! (n mod 10)]"
      by (subst toString.simps) simp
    then have "parseInt (toString n) =
                 10 * parseInt (toString (n div 10)) + digitVal (''0123456789'' ! (n mod 10))"
      by (simp only: parseInt_snoc)
    also have "\<dots> = 10 * (n div 10) + n mod 10"
      using 1 False digitVal_digit [of "n mod 10"] by simp
    also have "\<dots> = n" by simp
    finally show ?thesis .
  qed
qed

lemma split_nonempty: "split s \<noteq> []"
  by (induction s) (auto split: list.splits)

lemma split_append_dot: "split (a @ ''.'' @ b) = split a @ split b"
proof (induction a)
  case Nil
  show ?case by simp
next
  case (Cons c cs)
  obtain w ws where w: "split cs = w # ws"
    using split_nonempty [of cs] by (cases "split cs") auto
  show ?case using Cons w by simp
qed

lemma split_no_dot: "CHR ''.'' \<notin> set w \<Longrightarrow> split w = [w]"
  by (induction w) auto

lemma split_join:
  "ps \<noteq> [] \<Longrightarrow> \<forall>w\<in>set ps. CHR ''.'' \<notin> set w \<Longrightarrow> split (join ps) = ps"
proof (induction ps rule: join.induct)
  case 1
  then show ?case by simp
next
  case (2 p)
  then show ?case by (simp add: split_no_dot)
next
  case (3 p q ps)
  then have "split (join (q # ps)) = q # ps" by simp
  moreover have "split p = [p]" using 3 by (simp add: split_no_dot)
  ultimately show ?case using split_append_dot [of p "join (q # ps)"] by simp
qed


lemma join_split: "join (split s) = s"
proof (induction s)
  case Nil
  show ?case by simp
next
  case (Cons c cs)
  obtain v vs where v: "split cs = v # vs"
    using split_nonempty [of cs] by (cases "split cs") auto
  show ?case
  proof (cases "c = CHR ''.''")
    case True
    then show ?thesis using Cons v by simp
  next
    case False
    then show ?thesis using Cons v by (cases vs) simp_all
  qed
qed


subsection \<open>Navigation\<close>

lemma jsRemainder_nonneg: "0 \<le> a \<Longrightarrow> 0 < b \<Longrightarrow> jsRemainder a b = a mod b"
  by (cases "a = 0") (simp_all add: jsRemainder_def)

text \<open>
  Claim C9. On a non-empty match list and a valid cursor, next then previous, and
  previous then next, give the state back; next is the successor modulo the length, so
  it goes from the last index to 0, and previous goes from 0 to the last index. On an
  empty match list both leave the state as it is.
\<close>

theorem next_previous_inverse:
  "(searchResults st \<noteq> [] \<and> 0 \<le> currentSearchIndex st \<and>
      currentSearchIndex st < int (length (searchResults st)) \<longrightarrow>
        navigateToPrevResult (navigateToNextResult st) = st \<and>
        navigateToNextResult (navigateToPrevResult st) = st \<and>
        currentSearchIndex (navigateToNextResult st) =
          (currentSearchIndex st + 1) mod int (length (searchResults st)) \<and>
        (currentSearchIndex st = int (length (searchResults st)) - 1 \<longrightarrow>
           currentSearchIndex (navigateToNextResult st) = 0) \<and>
        (currentSearchIndex st = 0 \<longrightarrow>
           currentSearchIndex (navigateToPrevResult st) = int (length (searchResults st)) - 1)) \<and>
   (searchResults st = [] \<longrightarrow> navigateToNextResult st = st \<and> navigateToPrevResult st = st)"
proof -
  let ?n = "int (length (searchResults st))"
  let ?c = "currentSearchIndex st"
  have empty: "searchResults st = [] \<longrightarrow> navigateToNextResult st = st \<and> navigateToPrevResult st = st"
    by (simp add: navigateToNextResult_def navigateToPrevResult_def)
  have valid: "navigateToPrevResult (navigateToNextResult st) = st \<and>
        navigateToNextResult (navigateToPrevResult st) = st \<and>
        currentSearchIndex (navigateToNextResult st) = (?c + 1) mod ?n \<and>
        (?c = ?n - 1 \<longrightarrow> currentSearchIndex (navigateToNextResult st) = 0) \<and>
        (?c = 0 \<longrightarrow> currentSearchIndex (navigateToPrevResult st) = ?n - 1)"
    if ne: "searchResults st \<noteq> []" and lo: "0 \<le> ?c" and hi: "?c < ?n"
  proof -
    have npos: "0 < ?n" using ne by simp
    have nxt: "currentSearchIndex (navigateToNextResult st) = (?c + 1) mod ?n"
      using ne lo npos by (simp add: navigateToNextResult_def jsRemainder_nonneg)
    have nxt_len: "searchResults (navigateToNextResult st) = searchResults st"
      by (simp add: navigateToNextResult_def)
    have prv_len: "searchResults (navigateToPrevResult st) = searchResults st"
      by (simp add: navigateToPrevResult_def)
    have prv: "currentSearchIndex (navigateToPrevResult st) = (if ?c \<le> 0 then ?n - 1 else ?c - 1)"
      using ne by (simp add: navigateToPrevResult_def)
    have bk: "(if (?c + 1) mod ?n \<le> 0 then ?n - 1 else (?c + 1) mod ?n - 1) = ?c"
    proof (cases "?c + 1 = ?n")
      case True
      then show ?thesis by simp
    next
      case False
      then have "?c + 1 < ?n" using hi by linarith
      then have "(?c + 1) mod ?n = ?c + 1" using lo by simp
      then show ?thesis using lo by simp
    qed
    have fw: "jsRemainder ((if ?c \<le> 0 then ?n - 1 else ?c - 1) + 1) ?n = ?c"
    proof (cases "?c \<le> 0")
      case True
      then have "?c = 0" using lo by simp
      then show ?thesis using npos by (simp add: jsRemainder_nonneg)
    next
      case False
      then have "jsRemainder (?c - 1 + 1) ?n = ?c mod ?n"
        using npos by (simp add: jsRemainder_nonneg)
      then show ?thesis using False lo hi by simp
    qed
    have "navigateToPrevResult (navigateToNextResult st) =
            st\<lparr>currentSearchIndex :=
                 (if (?c + 1) mod ?n \<le> 0 then ?n - 1 else (?c + 1) mod ?n - 1)\<rparr>"
      using ne lo npos
      by (simp add: navigateToPrevResult_def navigateToNextResult_def jsRemainder_nonneg)
    also have "\<dots> = st\<lparr>currentSearchIndex := ?c\<rparr>"
      by (simp only: bk)
    also have "\<dots> = st"
      by simp
    finally have a: "navigateToPrevResult (navigateToNextResult st) = st" .
    have "navigateToNextResult (navigateToPrevResult st) =
            st\<lparr>currentSearchIndex :=
                 jsRemainder ((if ?c \<le> 0 then ?n - 1 else ?c - 1) + 1) ?n\<rparr>"
      using ne by (simp add: navigateToPrevResult_def navigateToNextResult_def)
    also have "\<dots> = st\<lparr>currentSearchIndex := ?c\<rparr>"
      by (simp only: fw)
    also have "\<dots> = st"
      by simp
    finally have b: "navigateToNextResult (navigateToPrevResult st) = st" .
    have c: "?c = ?n - 1 \<longrightarrow> currentSearchIndex (navigateToNextResult st) = 0"
      using nxt by simp
    have d: "?c = 0 \<longrightarrow> currentSearchIndex (navigateToPrevResult st) = ?n - 1"
      using prv by simp
    from a b nxt c d show ?thesis by blast
  qed
  from empty valid show ?thesis by blast
qed

theorem next_previous_inverse_witness:
  "navigateToPrevResult (navigateToNextResult threeHits) = threeHits \<and>
   navigateToNextResult (navigateToPrevResult threeHits) = threeHits \<and>
   currentSearchIndex (navigateToNextResult threeHits) = 0"
  using next_previous_inverse [of threeHits]
  by (simp add: threeHits_def initialState_def)

subsection \<open>Resolving a path\<close>

lemma getValueAtPath_loop_Undefined: "getValueAtPath_loop rt Undefined parts = Some Undefined"
  by (cases parts) simp_all

lemma getProp_throws:
  "getProp rt current part = None \<Longrightarrow>
   current = Undefined \<or> current = Val JNull \<or> rt current part = None"
  by (cases "(rt, current, part)" rule: getProp.cases) (auto split: option.splits if_splits)

lemma getValueAtPath_loop_throws:
  "getValueAtPath_loop rt current parts = None \<Longrightarrow> \<exists>v name. rt v name = None"
proof (induction parts arbitrary: current)
  case Nil
  then show ?case by simp
next
  case (Cons part parts)
  then have guard: "current \<noteq> Undefined" "current \<noteq> Val JNull"
    by (auto split: if_splits)
  show ?case
  proof (cases "getProp rt current part")
    case None
    with guard getProp_throws show ?thesis by blast
  next
    case (Some nxt)
    with Cons.prems guard have "getValueAtPath_loop rt nxt parts = None" by simp
    then show ?thesis by (rule Cons.IH)
  qed
qed

lemma getValueAtPath_loop_append:
  "getValueAtPath_loop rt current (ps @ qs) =
     (case getValueAtPath_loop rt current ps of
        None \<Rightarrow> None
      | Some c \<Rightarrow> getValueAtPath_loop rt c qs)"
proof (induction ps arbitrary: current)
  case Nil
  show ?case by simp
next
  case (Cons p ps)
  show ?case
    by (simp add: Cons.IH getValueAtPath_loop_Undefined split: option.splits)
qed

lemma getValueAtPath_throws:
  "getValueAtPath rt obj path = None \<Longrightarrow> \<exists>v name. rt v name = None"
  by (auto simp: getValueAtPath_def dest: getValueAtPath_loop_throws split: if_splits)





subsection \<open>Paths\<close>

lemmas search_eval =
  searchEffect_def searchInObject.simps entryHits_def getParent_def getValueAtPath_def
  currentPathOf_def matchesOf_def initialState_def string_eval

lemma arrayEntries_nth: "i < length xs \<Longrightarrow> (toString (k + i), xs ! i) \<in> set (arrayEntries k xs)"
proof (induction xs arbitrary: i k)
  case Nil
  then show ?case by simp
next
  case (Cons x xs)
  show ?case
  proof (cases i)
    case 0
    then show ?thesis by simp
  next
    case (Suc j)
    with Cons.prems have "j < length xs" by simp
    from Cons.IH [OF this, of "Suc k"] Suc show ?thesis by simp
  qed
qed

lemma pathOf_isObject: "pathOf obj path loc p v \<Longrightarrow> isObject obj"
  by (induction rule: pathOf.induct) auto

lemma pathOf_loc: "pathOf obj path loc p v \<Longrightarrow> loc \<noteq> []"
  by (induction rule: pathOf.induct) auto

lemma pathOf_extend:
  "pathOf obj path loc p c \<Longrightarrow> isObject c \<Longrightarrow> (k, v) \<in> set (objectEntries c) \<Longrightarrow>
   pathOf obj path (loc @ [k]) (currentPathOf p k) v"
proof (induction rule: pathOf.induct)
  case (pathOf_entry obj key val path)
  have "pathOf val (currentPathOf path key) [k] (currentPathOf (currentPathOf path key) k) v"
    using pathOf_entry.prems by (rule pathOf.pathOf_entry)
  from pathOf.pathOf_nested [OF pathOf_entry.hyps(1) pathOf_entry.hyps(2) pathOf_entry.prems(1) this]
  show ?case by simp
next
  case (pathOf_nested obj key val path loc p c)
  from pathOf_nested.IH [OF pathOf_nested.prems]
  have "pathOf val (currentPathOf path key) (loc @ [k]) (currentPathOf p k) v" .
  from pathOf.pathOf_nested [OF pathOf_nested.hyps(1) pathOf_nested.hyps(2) pathOf_nested.hyps(3) this]
  show ?case by simp
qed

lemma isObject_truthy: "isObject v \<Longrightarrow> truthy v"
  by (cases v) simp_all

lemma entryPathsOf_entry:
  "(key, val) \<in> set es \<Longrightarrow> ([key], currentPathOf path key, val) \<in> set (entryPathsOf es path)"
  by (induction es) auto

lemma entryPathsOf_nested:
  "(key, val) \<in> set es \<Longrightarrow> isObject val \<Longrightarrow>
   (loc, p, v) \<in> set (entryPaths val (currentPathOf path key)) \<Longrightarrow>
   (key # loc, p, v) \<in> set (entryPathsOf es path)"
proof (induction es)
  case Nil
  then show ?case by simp
next
  case (Cons e es)
  obtain k w where e: "e = (k, w)" by (cases e)
  from Cons.prems(1) e consider "key = k \<and> val = w" | "(key, val) \<in> set es" by auto
  then show ?case
  proof cases
    case 1
    then have "(key # loc, p, v) \<in>
        (\<lambda>e. (key # fst e, snd e)) ` set (entryPaths val (currentPathOf path key))"
      using Cons.prems(3) by force
    then show ?thesis using 1 e Cons.prems(2) by simp
  next
    case 2
    from Cons.IH [OF 2 Cons.prems(2) Cons.prems(3)] show ?thesis using e by simp
  qed
qed

lemma pathOf_entryPaths:
  "pathOf obj path loc p v \<Longrightarrow> (loc, p, v) \<in> set (entryPaths obj path)"
proof (induction rule: pathOf.induct)
  case (pathOf_entry obj key val path)
  then show ?case by (simp add: entryPaths.simps entryPathsOf_entry)
next
  case (pathOf_nested obj key val path loc p v)
  then show ?case by (simp add: entryPaths.simps entryPathsOf_nested)
qed

lemma entryPaths_pathOf:
  "(loc, p, v) \<in> set (entryPaths obj path) \<Longrightarrow> pathOf obj path loc p v"
  "(loc, p, v) \<in> set (entryPathsOf es path) \<Longrightarrow>
   \<exists>key val. (key, val) \<in> set es \<and>
     (loc = [key] \<and> p = currentPathOf path key \<and> v = val \<or>
      isObject val \<and> (\<exists>loc'. loc = key # loc' \<and> pathOf val (currentPathOf path key) loc' p v))"
proof (induction obj path and es path arbitrary: loc p v and loc p v rule: entryPaths_entryPathsOf.induct)
  case (1 obj path)
  then have obj: "isObject obj" and mem: "(loc, p, v) \<in> set (entryPathsOf (objectEntries obj) path)"
    by (auto simp: entryPaths.simps split: if_splits)
  from "1.IH" [OF _ mem] obj obtain key val where
    kv: "(key, val) \<in> set (objectEntries obj)" and
    alt: "loc = [key] \<and> p = currentPathOf path key \<and> v = val \<or>
          isObject val \<and> (\<exists>loc'. loc = key # loc' \<and> pathOf val (currentPathOf path key) loc' p v)"
    by auto
  from alt show ?case
  proof
    assume "loc = [key] \<and> p = currentPathOf path key \<and> v = val"
    then show ?thesis using pathOf.pathOf_entry [OF obj kv] by simp
  next
    assume "isObject val \<and> (\<exists>loc'. loc = key # loc' \<and> pathOf val (currentPathOf path key) loc' p v)"
    then show ?thesis using pathOf.pathOf_nested [OF obj kv] by auto
  qed
next
  case (2 path)
  then show ?case by simp
next
  case (3 key val rest path)
  from "3.prems" consider
      (here) "loc = [key]" "p = currentPathOf path key" "v = val"
    | (below) loc' where "isObject val" "loc = key # loc'"
        "(loc', p, v) \<in> set (entryPaths val (currentPathOf path key))"
    | (later) "(loc, p, v) \<in> set (entryPathsOf rest path)"
    by (auto split: if_splits)
  then show ?case
  proof cases
    case here
    then show ?thesis by auto
  next
    case below
    from "3.IH"(1) [OF below(1) below(3)] below show ?thesis by auto
  next
    case later
    from "3.IH"(2) [OF later] show ?thesis by auto
  qed
qed

text \<open>The relation \<open>pathOf\<close> holds exactly of the entries that the list enumerates.\<close>

lemma pathOf_iff_entryPaths:
  "pathOf obj path loc p v \<longleftrightarrow> (loc, p, v) \<in> set (entryPaths obj path)"
  using pathOf_entryPaths entryPaths_pathOf(1) by blast

lemma dottedDoc_entryPaths:
  "map (\<lambda>e. (fst e, fst (snd e))) (entryPaths dottedDoc []) =
     [([''a.b''], ''a.b''), ([''a''], ''a''), ([''a'', ''b''], ''a.b'')]"
  by (simp add: entryPaths.simps dottedDoc_def currentPathOf_def)

lemma arrayEntries_keys: "(k, v) \<in> set (arrayEntries i xs) \<Longrightarrow> (\<exists>n. k = toString n) \<and> v \<in> set xs"
  by (induction xs arbitrary: i) auto

lemma entries_dotFree:
  assumes "dotFreeKeys obj" and "(k, v) \<in> set (objectEntries obj)"
  shows "CHR ''.'' \<notin> set k \<and> dotFreeKeys v"
proof (cases obj)
  case (JArray xs)
  with assms(2) obtain n where "k = toString n" "v \<in> set xs"
    using arrayEntries_keys by fastforce
  with assms(1) JArray show ?thesis by (simp add: toString_no_dot)
next
  case (JObject kvs)
  with assms show ?thesis by auto
qed (use assms in simp_all)

lemma currentPathOf_nonempty: "path \<noteq> [] \<or> key \<noteq> [] \<Longrightarrow> currentPathOf path key \<noteq> []"
  by (auto simp: currentPathOf_def)

lemma pathOf_join:
  "pathOf obj path loc p v \<Longrightarrow> dotFreeKeys obj \<Longrightarrow>
   path \<noteq> [] \<or> (\<forall>e\<in>set (objectEntries obj). fst e \<noteq> []) \<Longrightarrow>
   p = (if path = [] then join loc else path @ ''.'' @ join loc) \<and>
   (\<forall>k\<in>set loc. CHR ''.'' \<notin> set k) \<and> loc \<noteq> []"
proof (induction rule: pathOf.induct)
  case (pathOf_entry obj key val path)
  then show ?case
    using entries_dotFree [of obj key val] by (simp add: currentPathOf_def)
next
  case (pathOf_nested obj key val path loc p v)
  have key: "CHR ''.'' \<notin> set key" and val: "dotFreeKeys val"
    using entries_dotFree [OF pathOf_nested.prems(1) pathOf_nested.hyps(2)] by simp_all
  have ne: "currentPathOf path key \<noteq> []"
    using pathOf_nested.prems(2) pathOf_nested.hyps(2) by (auto simp: currentPathOf_def)
  from pathOf_nested.IH [OF val] ne
  have p: "p = currentPathOf path key @ ''.'' @ join loc"
    and loc: "\<forall>k\<in>set loc. CHR ''.'' \<notin> set k" "loc \<noteq> []"
    by simp_all
  from loc(2) obtain l ls where l: "loc = l # ls" by (cases loc) auto
  show ?case using p loc key l by (simp add: currentPathOf_def)
qed

text \<open>
  Claim C8, as the code has it. In a document where no key contains a dot and no
  top-level key is empty, the path is injective: two entries to which the traversal
  gives the same path lie under the same sequence of keys.
\<close>

theorem paths_unique_without_dots:
  assumes "dotFreeKeys doc" and "\<forall>e\<in>set (objectEntries doc). fst e \<noteq> []"
    and "pathOf doc [] loc1 p v1" and "pathOf doc [] loc2 p v2"
  shows "loc1 = loc2"
proof -
  from pathOf_join [OF assms(3) assms(1)] assms(2)
  have 1: "p = join loc1" "\<forall>k\<in>set loc1. CHR ''.'' \<notin> set k" "loc1 \<noteq> []" by simp_all
  from pathOf_join [OF assms(4) assms(1)] assms(2)
  have 2: "p = join loc2" "\<forall>k\<in>set loc2. CHR ''.'' \<notin> set k" "loc2 \<noteq> []" by simp_all
  have "loc1 = split p" using 1 by (simp add: split_join)
  also have "\<dots> = loc2" using 2 by (simp add: split_join)
  finally show ?thesis .
qed

lemma plainDoc_paths:
  "pathOf plainDoc [] [''a'', ''b''] ''a.b'' (JNumber 2)"
proof -
  have "pathOf (JObject [(''b'', JNumber 2)]) ''a'' [''b''] (currentPathOf ''a'' ''b'') (JNumber 2)"
    by (rule pathOf_entry) simp_all
  then have "pathOf plainDoc [] [''a'', ''b''] (currentPathOf ''a'' ''b'') (JNumber 2)"
    using pathOf_nested [of plainDoc "''a''" "JObject [(''b'', JNumber 2)]" "[]" "[''b'']"]
    by (simp add: plainDoc_def currentPathOf_def)
  then show ?thesis by (simp add: currentPathOf_def)
qed

theorem paths_unique_without_dots_witness:
  "dotFreeKeys plainDoc \<and> pathOf plainDoc [] [''a'', ''b''] ''a.b'' (JNumber 2) \<and>
   (\<exists>loc p v. pathOf plainDoc [] loc p v \<and> p = ''a.b'' \<and> loc = [''a'', ''b''])"
proof -
  have d: "dotFreeKeys plainDoc" and e: "\<forall>e\<in>set (objectEntries plainDoc). fst e \<noteq> []"
    by (simp_all add: plainDoc_def)
  from paths_unique_without_dots [OF d e plainDoc_paths plainDoc_paths]
  have "[''a'', ''b''] = [''a'', ''b'']" .
  with d plainDoc_paths show ?thesis by blast
qed

text \<open>
  Claim C8 as stated fails: in \<^verbatim>\<open>{"a.b": 1, "a": {"b": 2}}\<close> the top-level key
  \<^verbatim>\<open>a.b\<close> and the nested key \<^verbatim>\<open>b\<close> of \<^verbatim>\<open>a\<close> both get the path \<^verbatim>\<open>a.b\<close>, and the
  search reports both matches under it.
\<close>

theorem dotted_key_counterexample:
  "pathOf dottedDoc [] [''a.b''] ''a.b'' (JNumber 1) \<and>
   pathOf dottedDoc [] [''a'', ''b''] ''a.b'' (JNumber 2) \<and>
   [''a.b''] \<noteq> [''a'', ''b''] \<and>
   matchesOf (searchEffect noInherited (initialState\<lparr>parsedJson := dottedDoc, searchQuery := ''b''\<rparr>)) =
     Some [(Key, ''a.b'', ''b'', 5), (Key, ''a.b'', ''a.b'', 1)]"
proof -
  have 1: "pathOf dottedDoc [] [''a.b''] (currentPathOf [] ''a.b'') (JNumber 1)"
    by (rule pathOf_entry) (simp_all add: dottedDoc_def)
  have "pathOf (JObject [(''b'', JNumber 2)]) ''a'' [''b''] (currentPathOf ''a'' ''b'') (JNumber 2)"
    by (rule pathOf_entry) simp_all
  then have 2: "pathOf dottedDoc [] [''a'', ''b''] (currentPathOf ''a'' ''b'') (JNumber 2)"
    using pathOf_nested [of dottedDoc "''a''" "JObject [(''b'', JNumber 2)]" "[]" "[''b'']"]
    by (simp add: dottedDoc_def currentPathOf_def)
  have 3: "matchesOf (searchEffect noInherited (initialState\<lparr>parsedJson := dottedDoc, searchQuery := ''b''\<rparr>)) =
     Some [(Key, ''a.b'', ''b'', 5), (Key, ''a.b'', ''a.b'', 1)]"
    by (simp add: search_eval dottedDoc_def)
  from 1 2 3 show ?thesis by (simp add: currentPathOf_def)
qed

text \<open>
  An empty top-level key collides as well: its path is empty, so the traversal names the
  entries below it as if they were top-level ones.
\<close>

lemma empty_key_collision:
  "pathOf emptyKeyDoc [] [[], ''a''] ''a'' (JNumber 1) \<and>
   pathOf emptyKeyDoc [] [''a''] ''a'' (JNumber 2)"
proof -
  have "pathOf (JObject [(''a'', JNumber 1)]) [] [''a''] (currentPathOf [] ''a'') (JNumber 1)"
    by (rule pathOf_entry) simp_all
  then have 1: "pathOf emptyKeyDoc [] [[], ''a''] (currentPathOf [] ''a'') (JNumber 1)"
    using pathOf_nested [of emptyKeyDoc "[]" "JObject [(''a'', JNumber 1)]" "[]" "[''a'']"]
    by (simp add: emptyKeyDoc_def currentPathOf_def)
  have 2: "pathOf emptyKeyDoc [] [''a''] (currentPathOf [] ''a'') (JNumber 2)"
    by (rule pathOf_entry) (simp_all add: emptyKeyDoc_def)
  from 1 2 show ?thesis by (simp add: currentPathOf_def)
qed

subsection \<open>The search index\<close>

lemma getParent_throws:
  "getParent rt obj path = None \<Longrightarrow> \<exists>v name. rt v name = None"
  by (auto simp: getParent_def Let_def dest: getValueAtPath_throws split: if_splits option.splits)

lemma entryHits_SomeD:
  assumes "entryHits rt pj q cp key val = Some hs"
  shows "\<exists>parent.
           hs = (if includes_str (toLowerCase key) q
                 then [\<lparr>rtype = Key, rpath = cp, rvalue = key, parentObj = parent,
                        childrenObj = Val val,
                        priority = (if toLowerCase key = q then 5 else 1)\<rparr>]
                 else []) @
                (case val of
                   JString s \<Rightarrow>
                     if includes_str (toLowerCase s) q
                     then [\<lparr>rtype = Value, rpath = cp, rvalue = s, parentObj = parent,
                            childrenObj = Val JNull,
                            priority = (if s = q then 5 else 1)\<rparr>]
                     else []
                 | _ \<Rightarrow> [])"
proof (cases "getParent rt (Val pj) cp")
  case None
  with assms show ?thesis
    by (auto simp: entryHits_def split: if_splits json.splits)
next
  case (Some r)
  obtain parent k where "r = (parent, k)" by (cases r)
  with Some assms have "hs = (if includes_str (toLowerCase key) q
                 then [\<lparr>rtype = Key, rpath = cp, rvalue = key, parentObj = parent,
                        childrenObj = Val val,
                        priority = (if toLowerCase key = q then 5 else 1)\<rparr>]
                 else []) @
                (case val of
                   JString s \<Rightarrow>
                     if includes_str (toLowerCase s) q
                     then [\<lparr>rtype = Value, rpath = cp, rvalue = s, parentObj = parent,
                            childrenObj = Val JNull,
                            priority = (if s = q then 5 else 1)\<rparr>]
                     else []
                 | _ \<Rightarrow> [])"
    by (auto simp: entryHits_def split: if_splits json.splits)
  then show ?thesis by blast
qed

lemma entryHits_some:
  "getParent rt (Val pj) cp = Some r \<Longrightarrow> \<exists>hs. entryHits rt pj q cp key val = Some hs"
  by (cases r) (simp add: entryHits_def split: json.splits)

lemma entryHits_sound:
  assumes "entryHits rt pj q cp key val = Some hs" and "m \<in> set hs"
  shows "rpath m = cp \<and>
         (rtype m = Key \<and> rvalue m = key \<and> includes_str (toLowerCase key) q \<and>
            priority m = (if toLowerCase key = q then 5 else 1) \<or>
          rtype m = Value \<and> val = JString (rvalue m) \<and> includes_str (toLowerCase (rvalue m)) q \<and>
            priority m = (if rvalue m = q then 5 else 1))"
proof -
  from entryHits_SomeD [OF assms(1)] obtain parent where
    hs: "hs = (if includes_str (toLowerCase key) q
                 then [\<lparr>rtype = Key, rpath = cp, rvalue = key, parentObj = parent,
                        childrenObj = Val val,
                        priority = (if toLowerCase key = q then 5 else 1)\<rparr>]
                 else []) @
                (case val of
                   JString s \<Rightarrow>
                     if includes_str (toLowerCase s) q
                     then [\<lparr>rtype = Value, rpath = cp, rvalue = s, parentObj = parent,
                            childrenObj = Val JNull,
                            priority = (if s = q then 5 else 1)\<rparr>]
                     else []
                 | _ \<Rightarrow> [])"
    by blast
  define kh where "kh = \<lparr>rtype = Key, rpath = cp, rvalue = key, parentObj = parent,
                   childrenObj = Val val,
                   priority = (if toLowerCase key = q then 5 else (1::int))\<rparr>"
  define vh where "vh = (\<lambda>s. \<lparr>rtype = Value, rpath = cp, rvalue = s, parentObj = parent,
                       childrenObj = Val JNull,
                       priority = (if s = q then 5 else (1::int))\<rparr>)"
  from assms(2) consider
      (k) "m = kh" "includes_str (toLowerCase key) q"
    | (v) s where "val = JString s" "includes_str (toLowerCase s) q" "m = vh s"
    unfolding hs kh_def vh_def by (auto split: if_splits json.splits)
  then show ?thesis
  proof cases
    case k
    then show ?thesis by (simp add: kh_def)
  next
    case v
    then show ?thesis by (simp add: vh_def)
  qed
qed

lemma key_hit:
  assumes "entryHits rt pj q cp key val = Some hs" and "includes_str (toLowerCase key) q"
  shows "\<exists>m\<in>set hs. rtype m = Key \<and> rpath m = cp \<and> rvalue m = key \<and>
           priority m = (if toLowerCase key = q then 5 else 1)"
  using entryHits_SomeD [OF assms(1)] assms(2) by auto

lemma value_hit:
  assumes "entryHits rt pj q cp key (JString s) = Some hs" and "includes_str (toLowerCase s) q"
  shows "\<exists>m\<in>set hs. rtype m = Value \<and> rpath m = cp \<and> rvalue m = s \<and>
           priority m = (if s = q then 5 else 1)"
  using entryHits_SomeD [OF assms(1)] assms(2) by auto

lemma forEachEntry_Cons:
  assumes "forEachEntry rt pj q ((k, v) # es) path = Some rs"
  shows "\<exists>hs ns ls. entryHits rt pj q (currentPathOf path k) k v = Some hs \<and>
     (if isObject v then searchInObject rt pj q v (currentPathOf path k) else Some []) = Some ns \<and>
     forEachEntry rt pj q es path = Some ls \<and> rs = hs @ ns @ ls"
  using assms by (cases "isObject v") (auto split: option.splits)

lemma search_forall:
  assumes hits: "\<And>cp key val hs m. entryHits rt pj q cp key val = Some hs \<Longrightarrow> m \<in> set hs \<Longrightarrow> P m"
  shows "searchInObject rt pj q obj path = Some rs \<Longrightarrow> m \<in> set rs \<Longrightarrow> P m"
    and "forEachEntry rt pj q es path = Some rs \<Longrightarrow> m \<in> set rs \<Longrightarrow> P m"
  using hits
proof (induction rt pj q obj path and rt pj q es path arbitrary: rs and rs
        rule: searchInObject_forEachEntry.induct)
  case (1 rt pj q obj path)
  then show ?case
    by (cases "isObject obj") (auto simp: searchInObject.simps)
next
  case (2 rt pj q path)
  then show ?case by simp
next
  case (3 rt pj q key val rest path)
  from forEachEntry_Cons [OF "3.prems"(1)] obtain hs ns ls where
    hs: "entryHits rt pj q (currentPathOf path key) key val = Some hs"
    and ns: "(if isObject val then searchInObject rt pj q val (currentPathOf path key)
              else Some []) = Some ns"
    and ls: "forEachEntry rt pj q rest path = Some ls"
    and rs: "rs = hs @ ns @ ls"
    by blast
  with "3.prems"(2) consider "m \<in> set hs" | "m \<in> set ns" | "m \<in> set ls" by auto
  then show ?case
  proof cases
    case 1
    then show ?thesis using "3.prems"(3) hs by blast
  next
    case 2
    then have obj: "isObject val" using ns by (cases "isObject val") auto
    with ns have "searchInObject rt pj q val (currentPathOf path key) = Some ns" by simp
    from "3.IH"(1) [OF hs obj this 2 "3.prems"(3)] show ?thesis by simp
  next
    case 3
    from "3.IH"(2) [OF hs ns ls 3 "3.prems"(3)] show ?thesis by simp
  qed
qed

lemma forEachEntry_hits:
  "forEachEntry rt pj q es path = Some rs \<Longrightarrow> (key, val) \<in> set es \<Longrightarrow>
   \<exists>hs. entryHits rt pj q (currentPathOf path key) key val = Some hs \<and> set hs \<subseteq> set rs"
proof (induction es arbitrary: rs)
  case Nil
  then show ?case by simp
next
  case (Cons e es)
  obtain k v where e: "e = (k, v)" by (cases e)
  from forEachEntry_Cons [of rt pj q k v es path rs] Cons.prems(1) e obtain hs ns ls where
    hs: "entryHits rt pj q (currentPathOf path k) k v = Some hs"
    and ls: "forEachEntry rt pj q es path = Some ls"
    and rs: "rs = hs @ ns @ ls"
    by blast
  from Cons.prems(2) e consider "key = k \<and> val = v" | "(key, val) \<in> set es" by auto
  then show ?case
  proof cases
    case 1
    then show ?thesis using hs rs by auto
  next
    case 2
    from Cons.IH [OF ls 2] show ?thesis using rs by auto
  qed
qed

lemma forEachEntry_nested:
  "forEachEntry rt pj q es path = Some rs \<Longrightarrow> (key, val) \<in> set es \<Longrightarrow> isObject val \<Longrightarrow>
   \<exists>ns. searchInObject rt pj q val (currentPathOf path key) = Some ns \<and> set ns \<subseteq> set rs"
proof (induction es arbitrary: rs)
  case Nil
  then show ?case by simp
next
  case (Cons e es)
  obtain k v where e: "e = (k, v)" by (cases e)
  from forEachEntry_Cons [of rt pj q k v es path rs] Cons.prems(1) e obtain hs ns ls where
    ns: "(if isObject v then searchInObject rt pj q v (currentPathOf path k) else Some []) = Some ns"
    and ls: "forEachEntry rt pj q es path = Some ls"
    and rs: "rs = hs @ ns @ ls"
    by blast
  from Cons.prems(2) e consider "key = k \<and> val = v" | "(key, val) \<in> set es" by auto
  then show ?case
  proof cases
    case 1
    then show ?thesis using ns rs Cons.prems(3) by auto
  next
    case 2
    from Cons.IH [OF ls 2 Cons.prems(3)] show ?thesis using rs by auto
  qed
qed

lemma pathOf_hits:
  "pathOf obj path loc p v \<Longrightarrow> searchInObject rt pj q obj path = Some rs \<Longrightarrow>
   \<exists>hs. entryHits rt pj q p (last loc) v = Some hs \<and> set hs \<subseteq> set rs"
proof (induction arbitrary: rs rule: pathOf.induct)
  case (pathOf_entry obj key val path)
  then have "forEachEntry rt pj q (objectEntries obj) path = Some rs"
    by (simp add: searchInObject.simps)
  from forEachEntry_hits [OF this pathOf_entry(2)] show ?case by simp
next
  case (pathOf_nested obj key val path loc p v)
  then have "forEachEntry rt pj q (objectEntries obj) path = Some rs"
    by (simp add: searchInObject.simps)
  from forEachEntry_nested [OF this pathOf_nested(2) pathOf_nested(3)]
  obtain ns where ns: "searchInObject rt pj q val (currentPathOf path key) = Some ns"
    and sub: "set ns \<subseteq> set rs" by blast
  from pathOf_nested.IH [OF ns] obtain hs where
    "entryHits rt pj q p (last loc) v = Some hs" "set hs \<subseteq> set ns" by blast
  moreover have "loc \<noteq> []" using pathOf_nested(4) by (rule pathOf_loc)
  ultimately show ?case using sub by auto
qed

text \<open>The search throws only where the parent of a path that it reaches does not resolve.\<close>

lemma search_completes:
  "(\<forall>loc p v. pathOf obj path loc p v \<longrightarrow> getParent rt (Val pj) p \<noteq> None) \<Longrightarrow>
   \<exists>rs. searchInObject rt pj q obj path = Some rs"
  "(\<forall>key val. (key, val) \<in> set es \<longrightarrow>
      getParent rt (Val pj) (currentPathOf path key) \<noteq> None \<and>
      (isObject val \<longrightarrow>
         (\<forall>loc p v. pathOf val (currentPathOf path key) loc p v \<longrightarrow>
            getParent rt (Val pj) p \<noteq> None))) \<Longrightarrow>
   \<exists>rs. forEachEntry rt pj q es path = Some rs"
proof (induction rt pj q obj path and rt pj q es path rule: searchInObject_forEachEntry.induct)
  case (1 rt pj q obj path)
  show ?case
  proof (cases "isObject obj")
    case False
    then show ?thesis by (simp add: searchInObject.simps)
  next
    case True
    have "\<forall>key val. (key, val) \<in> set (objectEntries obj) \<longrightarrow>
      getParent rt (Val pj) (currentPathOf path key) \<noteq> None \<and>
      (isObject val \<longrightarrow>
         (\<forall>loc p v. pathOf val (currentPathOf path key) loc p v \<longrightarrow>
            getParent rt (Val pj) p \<noteq> None))"
      using "1.prems" True pathOf_entry pathOf_nested by blast
    from "1.IH" [OF _ this] True show ?thesis
      by (simp add: searchInObject.simps)
  qed
next
  case (2 rt pj q path)
  show ?case by simp
next
  case (3 rt pj q key val rest path)
  have "getParent rt (Val pj) (currentPathOf path key) \<noteq> None"
    using "3.prems" by simp
  then obtain hs where hs: "entryHits rt pj q (currentPathOf path key) key val = Some hs"
    using entryHits_some by fastforce
  have "\<exists>ns. (if isObject val then searchInObject rt pj q val (currentPathOf path key)
               else Some []) = Some ns"
  proof (cases "isObject val")
    case True
    then have "\<forall>loc p v. pathOf val (currentPathOf path key) loc p v \<longrightarrow>
                 getParent rt (Val pj) p \<noteq> None"
      using "3.prems" by simp
    from "3.IH"(1) [OF hs True this] True show ?thesis by simp
  next
    case False
    then show ?thesis by simp
  qed
  then obtain ns where ns: "(if isObject val then searchInObject rt pj q val (currentPathOf path key)
               else Some []) = Some ns"
    by blast
  have "\<forall>k v. (k, v) \<in> set rest \<longrightarrow>
      getParent rt (Val pj) (currentPathOf path k) \<noteq> None \<and>
      (isObject v \<longrightarrow>
         (\<forall>loc p w. pathOf v (currentPathOf path k) loc p w \<longrightarrow>
            getParent rt (Val pj) p \<noteq> None))"
    using "3.prems" by simp
  from "3.IH"(2) [OF hs ns this] obtain ls where "forEachEntry rt pj q rest path = Some ls"
    by blast
  with hs ns show ?case by simp
qed

lemma arrayEntries_mem:
  "(key, v) \<in> set (arrayEntries k xs) \<Longrightarrow> \<exists>i<length xs. key = toString (k + i) \<and> v = xs ! i"
proof (induction xs arbitrary: k)
  case Nil
  then show ?case by simp
next
  case (Cons x xs)
  from Cons.prems consider "key = toString k \<and> v = x" | "(key, v) \<in> set (arrayEntries (Suc k) xs)"
    by auto
  then show ?case
  proof cases
    case 1
    then show ?thesis by (intro exI [of _ 0]) simp
  next
    case 2
    from Cons.IH [OF this] obtain i where "i < length xs" "key = toString (Suc k + i)" "v = xs ! i"
      by blast
    then show ?thesis by (intro exI [of _ "Suc i"]) simp
  qed
qed

lemma arrayIndex_toString: "arrayIndex (toString i) = Some i"
  using toString_digits [of i] toString_nonempty [of i]
  by (simp add: arrayIndex_def digitsOnly_def parseInt_toString)

text \<open>An entry of an array or object is read back as its own property under its key.\<close>

lemma own_entry:
  assumes "isObject obj" and "distinctKeys obj" and "(key, val) \<in> set (objectEntries obj)"
  shows "getProp rt (Val obj) key = Some (Val val) \<and> distinctKeys val"
proof (cases obj)
  case (JArray xs)
  with assms(3) obtain i where i: "i < length xs" "key = toString i" "val = xs ! i"
    using arrayEntries_mem [of key val 0 xs] by auto
  with JArray assms(2) show ?thesis
    by (simp add: arrayIndex_toString)
next
  case (JObject kvs)
  with assms have "map_of kvs key = Some val" by simp
  with JObject assms show ?thesis by auto
qed (use assms in simp_all)

lemma pathOf_resolves:
  "pathOf obj path loc p v \<Longrightarrow> distinctKeys obj \<Longrightarrow>
   getValueAtPath_loop rt (Val obj) loc = Some (Val v)"
proof (induction rule: pathOf.induct)
  case (pathOf_entry obj key val path)
  from own_entry [OF pathOf_entry.hyps(1) pathOf_entry.prems pathOf_entry.hyps(2)]
  show ?case using pathOf_entry.hyps(1) by (cases obj) simp_all
next
  case (pathOf_nested obj key val path loc p v)
  from own_entry [OF pathOf_nested.hyps(1) pathOf_nested.prems pathOf_nested.hyps(2)]
  have "getProp rt (Val obj) key = Some (Val val)" and "distinctKeys val" by simp_all
  with pathOf_nested.IH show ?case using pathOf_nested.hyps(1) by (cases obj) simp_all
qed

lemma getParent_plainKeys:
  assumes "plainKeys doc" and "pathOf doc [] loc p v"
  shows "getParent rt (Val doc) p \<noteq> None"
proof -
  from assms(1) have df: "dotFreeKeys doc" and dk: "distinctKeys doc"
    and top: "\<forall>e\<in>set (objectEntries doc). fst e \<noteq> []"
    by (simp_all add: plainKeys_def list_all_iff)
  from pathOf_join [OF assms(2) df] top
  have p: "p = join loc" and nd: "\<forall>k\<in>set loc. CHR ''.'' \<notin> set k" and ne: "loc \<noteq> []"
    by simp_all
  have sp: "split p = loc" using p nd ne by (simp add: split_join)
  from pathOf_resolves [OF assms(2) dk, of rt]
  have "getValueAtPath_loop rt (Val doc) (butlast loc @ [last loc]) = Some (Val v)"
    using ne by simp
  then obtain c where c: "getValueAtPath_loop rt (Val doc) (butlast loc) = Some c"
    unfolding getValueAtPath_loop_append by (auto split: option.splits)
  have "getValueAtPath rt (Val doc) (join (butlast loc)) \<noteq> None"
  proof (cases "join (butlast loc) = []")
    case True
    then show ?thesis by (simp add: getValueAtPath_def)
  next
    case False
    then have "butlast loc \<noteq> []" by (metis join.simps(1))
    moreover have "\<forall>k\<in>set (butlast loc). CHR ''.'' \<notin> set k"
      using nd by (meson in_set_butlastD)
    ultimately have "split (join (butlast loc)) = butlast loc" by (simp add: split_join)
    with False c show ?thesis by (simp add: getValueAtPath_def)
  qed
  then show ?thesis
    by (auto simp: getParent_def Let_def sp split: option.splits)
qed

lemma search_plainKeys:
  assumes "plainKeys doc"
  shows "\<exists>rs. searchInObject rt doc q doc [] = Some rs"
  using search_completes(1) [of doc "[]" rt doc q] getParent_plainKeys [OF assms] by blast

lemma searchEffect_blank:
  "trim (searchQuery st) = [] \<or> \<not> truthy (parsedJson st) \<Longrightarrow>
   searchEffect rt st = Some (st\<lparr>searchResults := []\<rparr>)"
  by (simp add: searchEffect_def)

lemma sort_key_Nil_iff: "sort_key f xs = [] \<longleftrightarrow> xs = []"
  by (metis length_0_conv length_sort)

lemma searchEffect_runs:
  assumes "trim (searchQuery st) \<noteq> []" and "truthy (parsedJson st)"
    and "searchEffect rt st = Some st'"
  shows "\<exists>rs. searchInObject rt (parsedJson st) (toLowerCase (searchQuery st)) (parsedJson st) [] = Some rs \<and>
           st' = st\<lparr>searchResults := sort_key (\<lambda>r. - priority r) rs,
                    currentSearchIndex := (if rs \<noteq> [] then 0 else - 1)\<rparr>"
proof (cases "searchInObject rt (parsedJson st) (toLowerCase (searchQuery st)) (parsedJson st) []")
  case None
  with assms show ?thesis by (simp add: searchEffect_def)
next
  case (Some rs)
  with assms(1,2) have "searchEffect rt st =
      Some (st\<lparr>searchResults := sort_key (\<lambda>r. - priority r) rs,
               currentSearchIndex := (if rs \<noteq> [] then 0 else - 1)\<rparr>)"
    by (simp add: searchEffect_def Let_def sort_key_Nil_iff)
  with assms(3) Some show ?thesis by simp
qed

lemma searchEffect_plainKeys:
  assumes "plainKeys (parsedJson st)"
  shows "\<exists>st'. searchEffect rt st = Some st'"
proof -
  obtain rs where "searchInObject rt (parsedJson st) (toLowerCase (searchQuery st)) (parsedJson st) [] = Some rs"
    using search_plainKeys [OF assms] by blast
  then show ?thesis by (simp add: searchEffect_def Let_def)
qed

lemma searchEffect_members:
  assumes "searchEffect rt st = Some st'" and "m \<in> set (searchResults st')"
  shows "\<exists>rs. searchInObject rt (parsedJson st) (toLowerCase (searchQuery st)) (parsedJson st) [] = Some rs \<and>
           m \<in> set rs"
proof (cases "trim (searchQuery st) = [] \<or> \<not> truthy (parsedJson st)")
  case True
  then have "st' = st\<lparr>searchResults := []\<rparr>"
    using assms(1) by (simp add: searchEffect_blank)
  then show ?thesis using assms(2) by simp
next
  case False
  then obtain rs where
    "searchInObject rt (parsedJson st) (toLowerCase (searchQuery st)) (parsedJson st) [] = Some rs"
    "st' = st\<lparr>searchResults := sort_key (\<lambda>r. - priority r) rs,
             currentSearchIndex := (if rs \<noteq> [] then 0 else - 1)\<rparr>"
    using searchEffect_runs [OF _ _ assms(1)] by blast
  then show ?thesis using assms(2) by auto
qed

lemma pathOf_member:
  assumes p: "pathOf doc [] loc p v"
    and run: "trim (searchQuery st) \<noteq> []" and doc: "parsedJson st = doc"
    and st': "searchEffect rt st = Some st'"
  shows "\<exists>hs. entryHits rt doc (toLowerCase (searchQuery st)) p (last loc) v = Some hs \<and>
           set hs \<subseteq> set (searchResults st')"
proof -
  have "truthy (parsedJson st)"
    using p doc pathOf_isObject isObject_truthy by blast
  with run st' obtain rs where
    rs: "searchInObject rt (parsedJson st) (toLowerCase (searchQuery st)) (parsedJson st) [] = Some rs"
    and eff: "st' = st\<lparr>searchResults := sort_key (\<lambda>r. - priority r) rs,
                currentSearchIndex := (if rs \<noteq> [] then 0 else - 1)\<rparr>"
    using searchEffect_runs by blast
  from pathOf_hits [OF p] rs doc obtain hs where
    "entryHits rt doc (toLowerCase (searchQuery st)) p (last loc) v = Some hs" "set hs \<subseteq> set rs"
    by blast
  with eff show ?thesis by auto
qed

lemma array_element_pathOf:
  assumes "doc = JArray xs \<and> p = [] \<or> pathOf doc [] loc p (JArray xs)" and "i < length xs"
  shows "\<exists>loc'. pathOf doc [] loc' (currentPathOf p (toString i)) (xs ! i) \<and> last loc' = toString i"
proof -
  have e: "(toString i, xs ! i) \<in> set (objectEntries (JArray xs))"
    using arrayEntries_nth [OF assms(2), of 0] by simp
  from assms(1) show ?thesis
  proof
    assume "doc = JArray xs \<and> p = []"
    then have "pathOf doc [] [toString i] (currentPathOf p (toString i)) (xs ! i)"
      using e pathOf_entry [of "JArray xs" "toString i" "xs ! i" "[]"] by simp
    then show ?thesis by (intro exI [of _ "[toString i]"]) simp
  next
    assume "pathOf doc [] loc p (JArray xs)"
    from pathOf_extend [OF this _ e]
    have "pathOf doc [] (loc @ [toString i]) (currentPathOf p (toString i)) (xs ! i)" by simp
    then show ?thesis by (intro exI [of _ "loc @ [toString i]"]) simp
  qed
qed

lemma searchEffect_member_rule:
  assumes "searchEffect rt st = Some st'" and "m \<in> set (searchResults st')"
  shows "includes_str (toLowerCase (rvalue m)) (toLowerCase (searchQuery st)) \<and>
         (rtype m = Key \<and>
            priority m = (if toLowerCase (rvalue m) = toLowerCase (searchQuery st) then 5 else 1) \<or>
          rtype m = Value \<and>
            priority m = (if rvalue m = toLowerCase (searchQuery st) then 5 else 1))"
proof -
  let ?q = "toLowerCase (searchQuery st)"
  let ?P = "\<lambda>m. includes_str (toLowerCase (rvalue m)) ?q \<and>
         (rtype m = Key \<and> priority m = (if toLowerCase (rvalue m) = ?q then 5 else 1) \<or>
          rtype m = Value \<and> priority m = (if rvalue m = ?q then 5 else 1))"
  obtain rs where rs: "searchInObject rt (parsedJson st) ?q (parsedJson st) [] = Some rs"
    and m: "m \<in> set rs"
    using searchEffect_members [OF assms] by blast
  have "?P m'" if "entryHits rt (parsedJson st) ?q cp key val = Some hs" "m' \<in> set hs"
    for cp key val hs m'
    using entryHits_sound [OF that] by auto
  from search_forall(1) [of rt "parsedJson st" ?q ?P, OF this rs m]
  show ?thesis by simp
qed

text \<open>
  Claim C10, as the code has it. An array is traversed as entries under the decimal
  strings of its indices, and the key rule applies to them: for an array that is the
  document or lies in it with current path \<open>p\<close>, and an index \<open>i\<close> whose decimal string
  contains the lowercased query, every traversal that completes emits a key match at
  \<open>p.i\<close> whose matched text is the index string, and every search effect that completes
  on a query that is not blank reports it. Both complete on a document whose keys are
  distinct, free of dots and not empty at the top level.
\<close>

theorem array_index_key_match:
  assumes arr: "doc = JArray xs \<and> p = [] \<or> pathOf doc [] loc p (JArray xs)"
    and i: "i < length xs"
    and sub: "includes_str (toString i) (toLowerCase query)"
  shows "(\<forall>rs. searchInObject rt doc (toLowerCase query) doc [] = Some rs \<longrightarrow>
            (\<exists>m\<in>set rs. rtype m = Key \<and> rpath m = currentPathOf p (toString i) \<and>
               rvalue m = toString i \<and>
               priority m = (if toString i = toLowerCase query then 5 else 1))) \<and>
         (\<forall>st'. trim query \<noteq> [] \<and>
                searchEffect rt (st\<lparr>parsedJson := doc, searchQuery := query\<rparr>) = Some st' \<longrightarrow>
            (\<exists>m\<in>set (searchResults st'). rtype m = Key \<and>
               rpath m = currentPathOf p (toString i) \<and> rvalue m = toString i \<and>
               priority m = (if toString i = toLowerCase query then 5 else 1))) \<and>
         (plainKeys doc \<longrightarrow>
            (\<exists>rs. searchInObject rt doc (toLowerCase query) doc [] = Some rs) \<and>
            (\<exists>st'. searchEffect rt (st\<lparr>parsedJson := doc, searchQuery := query\<rparr>) = Some st'))"
proof -
  let ?q = "toLowerCase query"
  let ?cp = "currentPathOf p (toString i)"
  let ?st = "st\<lparr>parsedJson := doc, searchQuery := query\<rparr>"
  obtain loc' where loc': "pathOf doc [] loc' ?cp (xs ! i)" and last: "last loc' = toString i"
    using array_element_pathOf [OF arr i] by blast
  have inc: "includes_str (toLowerCase (toString i)) ?q"
    using sub by (simp add: toLowerCase_toString)
  have first: "\<exists>m\<in>set rs. rtype m = Key \<and> rpath m = ?cp \<and> rvalue m = toString i \<and>
            priority m = (if toString i = ?q then 5 else 1)"
    if rs: "searchInObject rt doc ?q doc [] = Some rs" for rs
  proof -
    from pathOf_hits [OF loc' rs] last obtain hs where
      hs: "entryHits rt doc ?q ?cp (toString i) (xs ! i) = Some hs" and sub: "set hs \<subseteq> set rs"
      by auto
    from key_hit [OF hs inc] sub show ?thesis
      by (auto simp: toLowerCase_toString)
  qed
  have second: "\<exists>m\<in>set (searchResults st'). rtype m = Key \<and> rpath m = ?cp \<and>
            rvalue m = toString i \<and> priority m = (if toString i = ?q then 5 else 1)"
    if run: "trim query \<noteq> []" and st': "searchEffect rt ?st = Some st'" for st'
  proof -
    from pathOf_member [OF loc' _ _ st'] run last obtain hs where
      hs: "entryHits rt doc ?q ?cp (toString i) (xs ! i) = Some hs"
      and sub: "set hs \<subseteq> set (searchResults st')"
      by auto
    from key_hit [OF hs inc] sub show ?thesis
      by (auto simp: toLowerCase_toString)
  qed
  have third: "(\<exists>rs. searchInObject rt doc ?q doc [] = Some rs) \<and>
               (\<exists>st'. searchEffect rt ?st = Some st')"
    if "plainKeys doc"
    using search_plainKeys [OF that] searchEffect_plainKeys [of ?st rt] that by simp
  from first second third show ?thesis by blast
qed

lemma nestedArrayDoc_inner: "pathOf nestedArrayDoc [] [''1''] ''1'' (JArray [JNumber 6])"
proof -
  have "pathOf nestedArrayDoc [] [''1''] (currentPathOf [] ''1'') (JArray [JNumber 6])"
    by (rule pathOf_entry) (simp_all add: nestedArrayDoc_def toString.simps)
  then show ?thesis by (simp add: currentPathOf_def)
qed

lemma nestedArrayDoc_plainKeys: "plainKeys nestedArrayDoc"
  by (simp add: plainKeys_def nestedArrayDoc_def toString.simps)

theorem array_index_key_match_witness:
  "pathOf nestedArrayDoc [] [''1''] ''1'' (JArray [JNumber 6]) \<and>
   includes_str (toString 0) (toLowerCase ''0'') \<and> plainKeys nestedArrayDoc \<and>
   (\<exists>rs m. searchInObject builtinRuntime nestedArrayDoc (toLowerCase ''0'') nestedArrayDoc [] = Some rs \<and>
      m \<in> set rs \<and> rtype m = Key \<and> rpath m = ''1.0'' \<and> rvalue m = ''0'' \<and> priority m = 5)"
proof -
  have i: "(0::nat) < length [JNumber 6]" by simp
  have sub: "includes_str (toString 0) (toLowerCase ''0'')"
    by (simp add: string_eval)
  have ts: "toString 0 = ''0''" and lc: "toLowerCase ''0'' = ''0''"
    by (simp_all add: string_eval)
  note inst = array_index_key_match [OF disjI2 [OF nestedArrayDoc_inner] i sub,
      of builtinRuntime initialState]
  from inst nestedArrayDoc_plainKeys obtain rs where
    rs: "searchInObject builtinRuntime nestedArrayDoc (toLowerCase ''0'') nestedArrayDoc [] = Some rs"
    by blast
  with inst have "\<exists>m\<in>set rs. rtype m = Key \<and> rpath m = currentPathOf ''1'' (toString 0) \<and>
               rvalue m = toString 0 \<and>
               priority m = (if toString 0 = toLowerCase ''0'' then 5 else 1)"
    by blast
  then have "\<exists>m\<in>set rs. rtype m = Key \<and> rpath m = ''1.0'' \<and> rvalue m = ''0'' \<and> priority m = 5"
    unfolding ts lc by (simp add: currentPathOf_def)
  with rs nestedArrayDoc_inner sub nestedArrayDoc_plainKeys show ?thesis by blast
qed

text \<open>
  Claim C10 as stated fails on two inputs. The empty query is contained in every index
  string, and the search effect reports nothing for it. In the document
  \<^verbatim>\<open>{"constructor.caller": [[1], [2]]}\<close> the index \<^verbatim>\<open>0\<close> of the array contains the query
  \<^verbatim>\<open>0\<close>; the parent of the path \<^verbatim>\<open>constructor.caller.0\<close> is read through the inherited
  \<^verbatim>\<open>constructor\<close> and its \<^verbatim>\<open>caller\<close>, the read throws, and no match is emitted.
\<close>

theorem array_index_counterexample:
  "includes_str (toString 0) (toLowerCase []) \<and>
   matchesOf (searchEffect builtinRuntime
      (initialState\<lparr>parsedJson := nestedArrayDoc, searchQuery := []\<rparr>)) = Some [] \<and>
   pathOf callerDoc [] [''constructor.caller''] ''constructor.caller''
      (JArray [JArray [JNumber 1], JArray [JNumber 2]]) \<and>
   includes_str (toString 0) (toLowerCase ''0'') \<and>
   searchInObject builtinRuntime callerDoc (toLowerCase ''0'') callerDoc [] = None \<and>
   searchEffect builtinRuntime (initialState\<lparr>parsedJson := callerDoc, searchQuery := ''0''\<rparr>) = None"
proof -
  have "pathOf callerDoc [] [''constructor.caller''] (currentPathOf [] ''constructor.caller'')
      (JArray [JArray [JNumber 1], JArray [JNumber 2]])"
    by (rule pathOf_entry) (simp_all add: callerDoc_def)
  then have p: "pathOf callerDoc [] [''constructor.caller''] ''constructor.caller''
      (JArray [JArray [JNumber 1], JArray [JNumber 2]])"
    by (simp add: currentPathOf_def)
  have a: "includes_str (toString 0) (toLowerCase [])"
    by (simp add: string_eval)
  have b: "matchesOf (searchEffect builtinRuntime
      (initialState\<lparr>parsedJson := nestedArrayDoc, searchQuery := []\<rparr>)) = Some []"
    by (simp add: search_eval nestedArrayDoc_def)
  have c: "includes_str (toString 0) (toLowerCase ''0'')"
    by (simp add: string_eval)
  have d: "searchInObject builtinRuntime callerDoc (toLowerCase ''0'') callerDoc [] = None"
    by (simp add: search_eval callerDoc_def builtinRuntime_def)
  have e: "searchEffect builtinRuntime (initialState\<lparr>parsedJson := callerDoc, searchQuery := ''0''\<rparr>) = None"
    by (simp add: search_eval callerDoc_def builtinRuntime_def)
  from a b p c d e show ?thesis by blast
qed

text \<open>
  Claim C1, as the code has it. The query is lowercased, never trimmed. When the search
  effect completes, every match has priority 5 or 1; a key match has priority 5 exactly
  when its lowercased text equals the lowercased query; a value match has priority 5
  only when its lowercased text equals the lowercased query, and it has priority 5 when
  its text is the lowercased query itself. The effect completes on a document whose keys
  are distinct, free of dots and not empty at the top level.
\<close>

theorem search_priority:
  "(\<forall>st'. searchEffect rt st = Some st' \<longrightarrow>
     (\<forall>m\<in>set (searchResults st').
        (priority m = 5 \<or> priority m = 1) \<and>
        (rtype m = Key \<longrightarrow>
           (priority m = 5) = (toLowerCase (rvalue m) = toLowerCase (searchQuery st))) \<and>
        (rtype m = Value \<longrightarrow>
           (priority m = 5 \<longrightarrow> toLowerCase (rvalue m) = toLowerCase (searchQuery st)) \<and>
           (rvalue m = toLowerCase (searchQuery st) \<longrightarrow> priority m = 5)))) \<and>
   (plainKeys (parsedJson st) \<longrightarrow> (\<exists>st'. searchEffect rt st = Some st'))"
proof -
  have "(priority m = 5 \<or> priority m = 1) \<and>
        (rtype m = Key \<longrightarrow>
           (priority m = 5) = (toLowerCase (rvalue m) = toLowerCase (searchQuery st))) \<and>
        (rtype m = Value \<longrightarrow>
           (priority m = 5 \<longrightarrow> toLowerCase (rvalue m) = toLowerCase (searchQuery st)) \<and>
           (rvalue m = toLowerCase (searchQuery st) \<longrightarrow> priority m = 5))"
    if "searchEffect rt st = Some st'" "m \<in> set (searchResults st')" for st' m
    using searchEffect_member_rule [OF that] toLowerCase_idem [of "searchQuery st"]
    by (auto split: if_splits)
  moreover have "\<exists>st'. searchEffect rt st = Some st'" if "plainKeys (parsedJson st)"
    using searchEffect_plainKeys [OF that] .
  ultimately show ?thesis by blast
qed

lemma bobDoc_plainKeys: "plainKeys bobDoc"
  by (simp add: plainKeys_def bobDoc_def)

theorem search_priority_witness:
  "plainKeys bobDoc \<and>
   matchesOf (searchEffect builtinRuntime (initialState\<lparr>parsedJson := bobDoc, searchQuery := ''BOB''\<rparr>)) =
     Some [(Value, ''nested.name'', ''bob'', 5), (Value, ''name'', ''Bob'', 1)] \<and>
   (\<exists>st' m. searchEffect builtinRuntime (initialState\<lparr>parsedJson := bobDoc, searchQuery := ''BOB''\<rparr>) = Some st' \<and>
      m \<in> set (searchResults st') \<and> rtype m = Value \<and> priority m = 5 \<and>
      toLowerCase (rvalue m) = toLowerCase ''BOB'')"
proof -
  let ?st = "initialState\<lparr>parsedJson := bobDoc, searchQuery := ''BOB''\<rparr>"
  have ev: "matchesOf (searchEffect builtinRuntime ?st) =
     Some [(Value, ''nested.name'', ''bob'', 5), (Value, ''name'', ''Bob'', 1)]"
    by (simp add: search_eval bobDoc_def)
  note inst = search_priority [of builtinRuntime ?st]
  from inst bobDoc_plainKeys obtain st' where
    st': "searchEffect builtinRuntime ?st = Some st'"
    by auto
  with inst have rule: "\<forall>m\<in>set (searchResults st'). rtype m = Value \<longrightarrow>
           (priority m = 5 \<longrightarrow> toLowerCase (rvalue m) = toLowerCase (searchQuery ?st))"
    by blast
  from ev st' have "\<exists>m. m \<in> set (searchResults st') \<and> rtype m = Value \<and> priority m = 5"
    by (force simp: matchesOf_def)
  then obtain m where m: "m \<in> set (searchResults st')" "rtype m = Value" "priority m = 5"
    by blast
  with rule have "toLowerCase (rvalue m) = toLowerCase ''BOB''" by simp
  with st' m ev bobDoc_plainKeys show ?thesis by blast
qed

text \<open>
  Claim C1 as stated compares with the trimmed query. The key \<^verbatim>\<open>" a"\<close> under the query
  \<^verbatim>\<open>" a"\<close> is a match of priority 5, and differs from the trimmed query. And a search
  need not emit its matches: in \<^verbatim>\<open>{"a": 5, "a.constructor.caller.x": 1}\<close> the key that
  contains the query \<^verbatim>\<open>x\<close> has a parent path whose read throws.
\<close>

theorem search_priority_trim_counterexample:
  "matchesOf (searchEffect builtinRuntime (initialState\<lparr>parsedJson := spaceKeyDoc, searchQuery := '' a''\<rparr>)) =
     Some [(Key, '' a'', '' a'', 5)] \<and>
   toLowerCase '' a'' \<noteq> toLowerCase (trim '' a'') \<and>
   searchEffect builtinRuntime (initialState\<lparr>parsedJson := accessorDoc, searchQuery := ''x''\<rparr>) = None"
proof -
  have "matchesOf (searchEffect builtinRuntime (initialState\<lparr>parsedJson := spaceKeyDoc, searchQuery := '' a''\<rparr>)) =
     Some [(Key, '' a'', '' a'', 5)]"
    by (simp add: search_eval spaceKeyDoc_def)
  moreover have "toLowerCase '' a'' \<noteq> toLowerCase (trim '' a'')"
    by (simp add: string_eval)
  moreover have "searchEffect builtinRuntime (initialState\<lparr>parsedJson := accessorDoc, searchQuery := ''x''\<rparr>) = None"
    by (simp add: search_eval accessorDoc_def builtinRuntime_def)
  ultimately show ?thesis by blast
qed

text \<open>
  The value rule compares the value itself, not its lowercase form, with the lowercased
  query, where the key rule lowercases the key: the value \<^verbatim>\<open>"Bob"\<close> under the query
  \<^verbatim>\<open>"bob"\<close> gets priority 1.
\<close>

lemma value_priority_case_sensitive:
  "matchesOf (searchEffect builtinRuntime (initialState\<lparr>parsedJson := bobDoc, searchQuery := ''bob''\<rparr>)) =
     Some [(Value, ''nested.name'', ''bob'', 5), (Value, ''name'', ''Bob'', 1)] \<and>
   toLowerCase ''Bob'' = toLowerCase (trim ''bob'')"
  by (simp add: search_eval bobDoc_def)

text \<open>
  Claim C6, as the code has it. A blank query gives no match, on every document. When
  the search effect completes on another query, the matches are those of the lowercased
  query as typed, surrounding white space included: the lowercased text of every match
  contains it, every entry whose lowercased key contains it gives a key match, and every
  entry whose value is a string whose lowercase form contains it gives a value match.
  The effect completes on a document whose keys are distinct, free of dots and not empty
  at the top level.
\<close>

theorem search_matches_untrimmed:
  "(trim (searchQuery st) = [] \<longrightarrow> searchEffect rt st = Some (st\<lparr>searchResults := []\<rparr>)) \<and>
   (plainKeys (parsedJson st) \<longrightarrow> (\<exists>st'. searchEffect rt st = Some st')) \<and>
   (\<forall>st'. searchEffect rt st = Some st' \<longrightarrow>
     (\<forall>m\<in>set (searchResults st').
        includes_str (toLowerCase (rvalue m)) (toLowerCase (searchQuery st))) \<and>
     (trim (searchQuery st) \<noteq> [] \<and> pathOf (parsedJson st) [] loc p v \<longrightarrow>
        (includes_str (toLowerCase (last loc)) (toLowerCase (searchQuery st)) \<longrightarrow>
           (\<exists>m\<in>set (searchResults st'). rtype m = Key \<and> rpath m = p \<and> rvalue m = last loc)) \<and>
        (\<forall>s. v = JString s \<and> includes_str (toLowerCase s) (toLowerCase (searchQuery st)) \<longrightarrow>
           (\<exists>m\<in>set (searchResults st'). rtype m = Value \<and> rpath m = p \<and> rvalue m = s))))"
proof -
  let ?q = "toLowerCase (searchQuery st)"
  have blank: "searchEffect rt st = Some (st\<lparr>searchResults := []\<rparr>)" if "trim (searchQuery st) = []"
    using that by (simp add: searchEffect_blank)
  have total: "\<exists>st'. searchEffect rt st = Some st'" if "plainKeys (parsedJson st)"
    using searchEffect_plainKeys [OF that] .
  have sound: "includes_str (toLowerCase (rvalue m)) ?q"
    if "searchEffect rt st = Some st'" "m \<in> set (searchResults st')" for st' m
    using searchEffect_member_rule [OF that] by simp
  have keys: "\<exists>m\<in>set (searchResults st'). rtype m = Key \<and> rpath m = p \<and> rvalue m = last loc"
    if st': "searchEffect rt st = Some st'"
      and run: "trim (searchQuery st) \<noteq> []" and p: "pathOf (parsedJson st) [] loc p v"
      and inc: "includes_str (toLowerCase (last loc)) ?q" for st'
  proof -
    from pathOf_member [OF p run refl st'] obtain hs where
      hs: "entryHits rt (parsedJson st) ?q p (last loc) v = Some hs"
      and sub: "set hs \<subseteq> set (searchResults st')"
      by blast
    from key_hit [OF hs inc] sub show ?thesis by auto
  qed
  have vals: "\<exists>m\<in>set (searchResults st'). rtype m = Value \<and> rpath m = p \<and> rvalue m = s"
    if st': "searchEffect rt st = Some st'"
      and run: "trim (searchQuery st) \<noteq> []" and p: "pathOf (parsedJson st) [] loc p v"
      and v: "v = JString s" and inc: "includes_str (toLowerCase s) ?q" for st' s
  proof -
    from pathOf_member [OF p run refl st'] v obtain hs where
      hs: "entryHits rt (parsedJson st) ?q p (last loc) (JString s) = Some hs"
      and sub: "set hs \<subseteq> set (searchResults st')"
      by blast
    from value_hit [OF hs inc] sub show ?thesis by auto
  qed
  from blank total sound keys vals show ?thesis by blast
qed

lemma bobValueDoc_entry: "pathOf bobValueDoc [] [''a''] ''a'' (JString ''bob'')"
proof -
  have "pathOf bobValueDoc [] [''a''] (currentPathOf [] ''a'') (JString ''bob'')"
    by (rule pathOf_entry) (simp_all add: bobValueDoc_def)
  then show ?thesis by (simp add: currentPathOf_def)
qed

lemma bobValueDoc_plainKeys: "plainKeys bobValueDoc"
  by (simp add: plainKeys_def bobValueDoc_def)

theorem search_matches_untrimmed_witness:
  "trim ''BOB'' \<noteq> [] \<and> pathOf bobValueDoc [] [''a''] ''a'' (JString ''bob'') \<and>
   includes_str (toLowerCase ''bob'') (toLowerCase ''BOB'') \<and> plainKeys bobValueDoc \<and>
   (\<exists>st' m. searchEffect builtinRuntime (initialState\<lparr>parsedJson := bobValueDoc, searchQuery := ''BOB''\<rparr>) = Some st' \<and>
      m \<in> set (searchResults st') \<and> rtype m = Value \<and> rpath m = ''a'' \<and> rvalue m = ''bob'')"
proof -
  let ?st = "initialState\<lparr>parsedJson := bobValueDoc, searchQuery := ''BOB''\<rparr>"
  have run: "trim ''BOB'' \<noteq> []"
    by (simp add: string_eval)
  have inc: "includes_str (toLowerCase ''bob'') (toLowerCase ''BOB'')"
    by (simp add: string_eval)
  note inst = search_matches_untrimmed [of ?st builtinRuntime "[''a'']" "''a''" "JString ''bob''"]
  from inst bobValueDoc_plainKeys obtain st' where st': "searchEffect builtinRuntime ?st = Some st'"
    by auto
  with inst have complete: "trim (searchQuery ?st) \<noteq> [] \<and> pathOf (parsedJson ?st) [] [''a''] ''a'' (JString ''bob'') \<longrightarrow>
        (\<forall>s. JString ''bob'' = JString s \<and> includes_str (toLowerCase s) (toLowerCase (searchQuery ?st)) \<longrightarrow>
           (\<exists>m\<in>set (searchResults st'). rtype m = Value \<and> rpath m = ''a'' \<and> rvalue m = s))"
    by blast
  from complete run inc bobValueDoc_entry
  have "\<exists>m\<in>set (searchResults st'). rtype m = Value \<and> rpath m = ''a'' \<and> rvalue m = ''bob''"
    by simp
  with st' run inc bobValueDoc_entry bobValueDoc_plainKeys show ?thesis by blast
qed

text \<open>
  Claim C6 as stated fails: the query \<^verbatim>\<open>" bob"\<close> finds nothing in \<^verbatim>\<open>{"a": "bob"}\<close>,
  its trimmed form \<^verbatim>\<open>"bob"\<close> finds the value. And a search need not give a match set:
  in \<^verbatim>\<open>{"a": 5, "a.constructor.caller.x": 1}\<close> under the query \<^verbatim>\<open>x\<close> the read of the
  parent of the matching key throws.
\<close>

theorem search_trim_counterexample:
  "trim '' bob'' = ''bob'' \<and>
   matchesOf (searchEffect builtinRuntime (initialState\<lparr>parsedJson := bobValueDoc, searchQuery := '' bob''\<rparr>)) =
     Some [] \<and>
   matchesOf (searchEffect builtinRuntime (initialState\<lparr>parsedJson := bobValueDoc, searchQuery := ''bob''\<rparr>)) =
     Some [(Value, ''a'', ''bob'', 5)] \<and>
   matchesOf (searchEffect builtinRuntime (initialState\<lparr>parsedJson := accessorDoc, searchQuery := ''x''\<rparr>)) = None"
proof -
  have "trim '' bob'' = ''bob''"
    by (simp add: string_eval)
  moreover have "matchesOf (searchEffect builtinRuntime (initialState\<lparr>parsedJson := bobValueDoc, searchQuery := '' bob''\<rparr>)) =
     Some []"
    by (simp add: search_eval bobValueDoc_def)
  moreover have "matchesOf (searchEffect builtinRuntime (initialState\<lparr>parsedJson := bobValueDoc, searchQuery := ''bob''\<rparr>)) =
     Some [(Value, ''a'', ''bob'', 5)]"
    by (simp add: search_eval bobValueDoc_def)
  moreover have "matchesOf (searchEffect builtinRuntime (initialState\<lparr>parsedJson := accessorDoc, searchQuery := ''x''\<rparr>)) = None"
    by (simp add: search_eval accessorDoc_def builtinRuntime_def)
  ultimately show ?thesis by blast
qed

subsection \<open>Events and effects\<close>

lemmas step_eval =
  thenNavigate_def navigationEffect_def expandParentPaths_def spread_def
  processJsonEffect_def parsedJsonChanged_def navigateToNextResult_def navigateToPrevResult_def
  jsRemainder_def toggleSection_def noInherited_def truthyVal.simps exampleHit_def

text \<open>
  Claim C2, evaluated on the code. The document \<^verbatim>\<open>[[5],[6]]\<close> and the query \<^verbatim>\<open>0\<close> give
  three matches, and next moves the cursor to 1. Clearing the query then empties the
  match list and leaves the cursor at 1: the early return of the search effect sets the
  matches and not the cursor. The initial state has the cursor 0 on an empty list.
\<close>

theorem cursor_left_stale:
  "cursorOf (run exampleParse noInherited
       [SetJsonInput ''[[5],[6]]'', SetSearchQuery ''0'', NavigateToNextResult] initialState) =
     Some (1, 3) \<and>
   cursorOf (run exampleParse noInherited
       [SetJsonInput ''[[5],[6]]'', SetSearchQuery ''0'', NavigateToNextResult, SetSearchQuery []]
       initialState) =
     Some (1, 0) \<and>
   cursorOf (Some initialState) = Some (0, 0)"
  by (simp add: cursorOf_def search_eval step_eval exampleParse_def nestedArrayDoc_def)

lemma navigationEffect_fields:
  "navigationEffect st = Some st' \<Longrightarrow>
   parsedJson st' = parsedJson st \<and> searchQuery st' = searchQuery st \<and>
   searchResults st' = searchResults st \<and> error st' = error st \<and>
   currentSearchIndex st' = currentSearchIndex st"
  by (auto simp: navigationEffect_def expandParentPaths_def split: if_splits)

lemma navigationEffect_empty:
  "searchResults st = [] \<Longrightarrow> navigationEffect st = Some st"
  by (simp add: navigationEffect_def)

lemma toggleSimilarStructures_fields:
  "toggleSimilarStructures rt path expand st = Some st' \<Longrightarrow>
   parsedJson st' = parsedJson st \<and> searchQuery st' = searchQuery st \<and>
   searchResults st' = searchResults st"
  by (auto simp: toggleSimilarStructures_def Let_def split: option.splits if_splits)

lemma searchEffect_consistent:
  assumes "thenNavigate (searchEffect rt st) = Some st'"
  shows "resultsConsistent st'"
proof -
  from assms obtain st1 where st1: "searchEffect rt st = Some st1"
    and nav: "navigationEffect st1 = Some st'"
    by (auto simp: thenNavigate_def split: option.splits)
  have "resultsConsistent st1"
  proof (cases "trim (searchQuery st) = [] \<or> \<not> truthy (parsedJson st)")
    case True
    then have "st1 = st\<lparr>searchResults := []\<rparr>"
      using st1 by (simp add: searchEffect_blank)
    then show ?thesis by (simp add: resultsConsistent_def)
  next
    case False
    then obtain rs where "st1 =
       st\<lparr>searchResults := sort_key (\<lambda>r. - priority r) rs,
          currentSearchIndex := (if rs \<noteq> [] then 0 else - 1)\<rparr>"
      using searchEffect_runs [OF _ _ st1] by blast
    with False show ?thesis by (auto simp: resultsConsistent_def)
  qed
  with navigationEffect_fields [OF nav] show ?thesis
    by (simp add: resultsConsistent_def)
qed

lemma step_consistent:
  assumes "resultsConsistent st" and "step parse rt ev st = Some st'"
  shows "resultsConsistent st'"
proof (cases ev)
  case (SetJsonInput inp)
  show ?thesis
  proof (cases "inp = jsonInput st")
    case True
    then show ?thesis using assms SetJsonInput by simp
  next
    case False
    let ?st1 = "processJsonEffect parse (st\<lparr>jsonInput := inp\<rparr>)"
    have q: "searchQuery ?st1 = searchQuery st" and r: "searchResults ?st1 = searchResults st"
      by (simp_all add: processJsonEffect_def split: sum.splits)
    show ?thesis
    proof (cases "parsedJsonChanged (parsedJson st) (parsedJson ?st1)")
      case True
      with False assms(2) SetJsonInput have "thenNavigate (searchEffect rt ?st1) = Some st'"
        by (simp add: Let_def)
      then show ?thesis by (rule searchEffect_consistent)
    next
      case unchanged: False
      with False assms(2) SetJsonInput have st': "st' = ?st1"
        by (simp add: Let_def)
      from unchanged have "parsedJson ?st1 = parsedJson st"
        by (simp add: parsedJsonChanged_def)
      with q r assms(1) st' show ?thesis
        by (simp add: resultsConsistent_def)
    qed
  qed
next
  case (SetSearchQuery q)
  show ?thesis
  proof (cases "q = searchQuery st")
    case True
    then show ?thesis using assms SetSearchQuery by simp
  next
    case False
    with assms(2) SetSearchQuery
    have "thenNavigate (searchEffect rt (st\<lparr>searchQuery := q\<rparr>)) = Some st'"
      by simp
    then show ?thesis by (rule searchEffect_consistent)
  qed
next
  case (ToggleSection path)
  then show ?thesis using assms
    by (auto simp: resultsConsistent_def toggleSection_def split: option.splits)
next
  case (ToggleSimilarStructures path expand)
  with assms(2) have "toggleSimilarStructures rt path expand st = Some st'" by simp
  from toggleSimilarStructures_fields [OF this] assms(1) show ?thesis
    by (simp add: resultsConsistent_def)
next
  case NavigateToNextResult
  let ?st1 = "navigateToNextResult st"
  have f: "parsedJson ?st1 = parsedJson st \<and> searchQuery ?st1 = searchQuery st \<and>
           searchResults ?st1 = searchResults st"
    by (simp add: navigateToNextResult_def)
  from assms(2) NavigateToNextResult have "st' = ?st1 \<or> navigationEffect ?st1 = Some st'"
    by (auto simp: Let_def split: if_splits)
  then show ?thesis
    using f assms(1) navigationEffect_fields [of ?st1 st']
    by (auto simp: resultsConsistent_def)
next
  case NavigateToPrevResult
  let ?st1 = "navigateToPrevResult st"
  have f: "parsedJson ?st1 = parsedJson st \<and> searchQuery ?st1 = searchQuery st \<and>
           searchResults ?st1 = searchResults st"
    by (simp add: navigateToPrevResult_def)
  from assms(2) NavigateToPrevResult have "st' = ?st1 \<or> navigationEffect ?st1 = Some st'"
    by (auto simp: Let_def split: if_splits)
  then show ?thesis
    using f assms(1) navigationEffect_fields [of ?st1 st']
    by (auto simp: resultsConsistent_def)
next
  case ToggleDarkMode
  then show ?thesis using assms by (auto simp: resultsConsistent_def)
qed

lemma reachable_consistent: "reachable parse rt st \<Longrightarrow> resultsConsistent st"
proof (induction rule: reachable.induct)
  case reachable_initial
  show ?case by (simp add: resultsConsistent_def initialState_def)
next
  case (reachable_step st ev st')
  then show ?case using step_consistent by blast
qed

text \<open>
  Claim C5, as the code has it. When the input changes to a text that is not blank and
  that the parser rejects, the document becomes \<^verbatim>\<open>null\<close>, the error is the one message
  \<^verbatim>\<open>Invalid JSON: \<close> followed by the parser's, the match list is empty, and the
  expansion record is the one before the change.
\<close>

theorem malformed_input_keeps_expansion:
  assumes "reachable parse rt st" and "text \<noteq> jsonInput st" and "trim text \<noteq> []"
    and "parse text = Inl message"
  shows "\<exists>st'. step parse rt (SetJsonInput text) st = Some st' \<and>
           parsedJson st' = JNull \<and> error st' = ''Invalid JSON: '' @ message \<and>
           searchResults st' = [] \<and> expandedSections st' = expandedSections st"
proof -
  let ?st1 = "processJsonEffect parse (st\<lparr>jsonInput := text\<rparr>)"
  have st1: "?st1 = st\<lparr>jsonInput := text, parsedJson := JNull, error := ''Invalid JSON: '' @ message\<rparr>"
    using assms(3,4) by (simp add: processJsonEffect_def)
  show ?thesis
  proof (cases "parsedJsonChanged (parsedJson st) (parsedJson ?st1)")
    case True
    have "searchEffect rt ?st1 = Some (?st1\<lparr>searchResults := []\<rparr>)"
      by (rule searchEffect_blank) (simp add: st1)
    then have "thenNavigate (searchEffect rt ?st1) = Some (?st1\<lparr>searchResults := []\<rparr>)"
      by (simp add: thenNavigate_def navigationEffect_empty)
    with True assms(2) have "step parse rt (SetJsonInput text) st = Some (?st1\<lparr>searchResults := []\<rparr>)"
      by (simp add: Let_def)
    then show ?thesis by (simp add: st1)
  next
    case False
    then have "parsedJson st = JNull"
      by (simp add: parsedJsonChanged_def st1)
    with reachable_consistent [OF assms(1)] have "searchResults st = []"
      by (simp add: resultsConsistent_def)
    moreover from False assms(2) have "step parse rt (SetJsonInput text) st = Some ?st1"
      by (simp add: Let_def)
    ultimately show ?thesis by (simp add: st1)
  qed
qed

lemma toggledState_run:
  "run exampleParse noInherited [SetJsonInput ''[[5],[6]]'', ToggleSection ''0''] initialState =
     Some toggledState"
  by (simp add: toggledState_def search_eval step_eval exampleParse_def nestedArrayDoc_def)

lemma run_reachable:
  "reachable parse rt st \<Longrightarrow> run parse rt evs st = Some st' \<Longrightarrow> reachable parse rt st'"
proof (induction evs arbitrary: st)
  case Nil
  then show ?case by simp
next
  case (Cons ev evs)
  then obtain st1 where "step parse rt ev st = Some st1" "run parse rt evs st1 = Some st'"
    by (auto split: option.splits)
  with Cons show ?case using reachable_step by blast
qed

lemma toggledState_reachable: "reachable exampleParse noInherited toggledState"
  using run_reachable [OF reachable_initial toggledState_run] .

theorem malformed_input_keeps_expansion_witness:
  "reachable exampleParse noInherited toggledState \<and> ''{not json'' \<noteq> jsonInput toggledState \<and>
   trim ''{not json'' \<noteq> [] \<and> exampleParse ''{not json'' = Inl ''Unexpected token'' \<and>
   (\<exists>st'. step exampleParse noInherited (SetJsonInput ''{not json'') toggledState = Some st' \<and>
      parsedJson st' = JNull \<and> error st' = ''Invalid JSON: Unexpected token'' \<and>
      searchResults st' = [] \<and> expandedSections st' = [(''0'', True)])"
proof -
  have a: "''{not json'' \<noteq> jsonInput toggledState"
    by (simp add: toggledState_def)
  have b: "trim ''{not json'' \<noteq> []"
    by (simp add: string_eval)
  have c: "exampleParse ''{not json'' = Inl ''Unexpected token''"
    by (simp add: exampleParse_def)
  from malformed_input_keeps_expansion [OF toggledState_reachable a b c]
  have "\<exists>st'. step exampleParse noInherited (SetJsonInput ''{not json'') toggledState = Some st' \<and>
      parsedJson st' = JNull \<and> error st' = ''Invalid JSON: Unexpected token'' \<and>
      searchResults st' = [] \<and> expandedSections st' = [(''0'', True)]"
    by (simp add: toggledState_def)
  with toggledState_reachable a b c show ?thesis by blast
qed

text \<open>
  Claim C5 as stated fails: after a section was expanded, malformed input leaves its
  entry in the expansion record.
\<close>

theorem malformed_input_counterexample:
  "map_option (\<lambda>st. (parsedJson st, error st, searchResults st, expandedSections st))
     (run exampleParse noInherited
        [SetJsonInput ''[[5],[6]]'', ToggleSection ''0'', SetJsonInput ''{not json''] initialState) =
   Some (JNull, ''Invalid JSON: Unexpected token'', [], [(''0'', True)])"
  by (simp add: search_eval step_eval exampleParse_def nestedArrayDoc_def)

subsection \<open>Similar structures\<close>

text \<open>
  Claim C3, evaluated on the code. In
  \<^verbatim>\<open>{"a": [{"b": [{"c": 1}, {"c": 2}]}, {"b": [{"c": 3}, {"c": 4}]}]}\<close> the path
  \<^verbatim>\<open>a.0.b.1\<close> has pivots at positions 1 and 3, and \<^verbatim>\<open>a.0.b\<close> is an array of two
  elements. The only candidate is \<^verbatim>\<open>a.1.b.1\<close>: for the inner pivot too,
  \<^verbatim>\<open>findSiblingsInArray\<close> replaces the first index of the path, so \<^verbatim>\<open>a.0.b.0\<close> is
  not produced.
\<close>

theorem nested_siblings_vary_first_index_only:
  "findNestedSiblings noInherited twoLevelDoc ''a.0.b.1'' = Some [''a.1.b.1''] \<and>
   getValueAtPath noInherited (Val twoLevelDoc) ''a.0.b'' =
     Some (Val (JArray [JObject [(''c'', JNumber 1)], JObject [(''c'', JNumber 2)]])) \<and>
   ''a.0.b.0'' \<notin> set [''a.1.b.1'']"
  by (simp add: findNestedSiblings_def findNestedSiblings_loop.simps findSiblingsInArray_def
      indexPositionsOf_def getPathUpToIndex_def getPathWithReplacedIndex_def uniqueInOrder_def
      getValueAtPath_def twoLevelDoc_def string_eval)


































end
